theory Spec2Isabelle
  imports Main "HOL-Library.Word"
begin

unbundle bit_operations_syntax


section \<open>Data model (internal/model)\<close>

text \<open>
  The three tables of the service. A row is a record with the columns of the Go struct;
  the GORM-managed timestamps \<open>CreatedAt\<close>/\<open>UpdatedAt\<close> and the never-persisted
  relationship pointers (\<open>gorm:"-"\<close>) are left out, \<open>DeletedAt\<close> is kept as its
  \<open>Valid\<close> flag. Go's \<open>uint\<close> keys are \<open>nat\<close>. \<open>MaxUses\<close> and \<open>UsedCount\<close> are
  Go \<open>int\<close>; they are \<open>int\<close> here: the only arithmetic on them is \<open>UsedCount++\<close>,
  executed after \<open>UsedCount < MaxUses\<close> has been checked, so it cannot wrap. The
  structs share field names (\<open>ID\<close>, \<open>DeletedAt\<close>), so each record's fields carry a
  prefix.
\<close>

record InviteCode =
  ic_ID :: nat
  ic_Code :: string
  ic_CreatedByID :: nat
  ic_Status :: string
  ic_MaxUses :: int
  ic_UsedCount :: int
  ic_Description :: string
  ic_Metadata :: string
  ic_DeletedAt :: bool

record InviteCodeUsage =
  iu_ID :: nat
  iu_InviteCodeID :: nat
  iu_UsedByID :: nat
  iu_UsedAt :: nat
  iu_IPAddress :: string
  iu_UserAgent :: string

record User =
  u_ID :: nat
  u_Email :: string
  u_Name :: string
  u_Username :: string
  u_Password :: string
  u_Provider :: string
  u_Status :: string
  u_Role :: string
  u_InviteCodeID :: "nat option"
  u_InviteCodeUsed :: "string option"
  u_DeletedAt :: bool

definition InviteCodeStatusActive :: string where
  "InviteCodeStatusActive = ''active''"

definition InviteCodeStatusUsed :: string where
  "InviteCodeStatusUsed = ''used''"

definition InviteCodeStatusDisabled :: string where
  "InviteCodeStatusDisabled = ''disabled''"

definition ProviderLocal :: string where
  "ProviderLocal = ''local''"

definition UserStatusActive :: string where
  "UserStatusActive = ''active''"

definition UserRoleUser :: string where
  "UserRoleUser = ''user''"

definition UserRoleAdmin :: string where
  "UserRoleAdmin = ''admin''"

definition User_IsActive :: "User \<Rightarrow> bool" where
  "User_IsActive u = (u_Status u = UserStatusActive \<and> \<not> u_DeletedAt u)"

definition IsAdmin :: "User \<Rightarrow> bool" where
  "IsAdmin u = (u_Role u = UserRoleAdmin \<and> User_IsActive u)"

definition IsActive :: "InviteCode \<Rightarrow> bool" where
  "IsActive ic =
     (if ic_Status ic \<noteq> InviteCodeStatusActive then False
      else if ic_UsedCount ic \<ge> ic_MaxUses ic then False
      else True)"

definition IsExhausted :: "InviteCode \<Rightarrow> bool" where
  "IsExhausted ic = (ic_UsedCount ic \<ge> ic_MaxUses ic)"

definition IsDeleted :: "InviteCode \<Rightarrow> bool" where
  "IsDeleted ic = ic_DeletedAt ic"

definition CanBeUsed :: "InviteCode \<Rightarrow> bool" where
  "CanBeUsed ic = (IsActive ic \<and> \<not> IsDeleted ic)"


section \<open>The store\<close>

text \<open>
  The database behind \<open>*gorm.DB\<close>: the rows of each table in insertion order (which is
  primary-key order) and the next auto-increment value of each table.
\<close>

record DB =
  invite_codes :: "InviteCode list"
  invite_code_usages :: "InviteCodeUsage list"
  users :: "User list"
  invite_codes_seq :: nat
  invite_code_usages_seq :: nat
  users_seq :: nat

definition empty_db :: DB where
  "empty_db = \<lparr>invite_codes = [], invite_code_usages = [], users = [],
               invite_codes_seq = 1, invite_code_usages_seq = 1, users_seq = 1\<rparr>"

text \<open>
  What the surroundings decide during one service call: whether a statement sent to the
  database fails with a driver error, and the clock. Every service function takes one.
\<close>

record env =
  get_err :: bool
  save_err :: bool
  create_err :: bool
  commit_err :: bool
  delete_err :: bool
  now :: nat

definition no_faults :: env where
  "no_faults = \<lparr>get_err = False, save_err = False, create_err = False,
                 commit_err = False, delete_err = False, now = 0\<rparr>"

datatype gorm_error = ErrRecordNotFound | ErrDriver

text \<open>
  \<open>db.Where("code = ?", code).First(&x)\<close>. \<open>InviteCode\<close> has a \<open>gorm.DeletedAt\<close>
  column, so every query on it carries \<open>deleted_at IS NULL\<close>. The flag says that
  the statement fails with a driver error.
\<close>

definition First_by_code :: "bool \<Rightarrow> string \<Rightarrow> DB \<Rightarrow> gorm_error + InviteCode" where
  "First_by_code err code db =
     (if err then Inl ErrDriver
      else case find (\<lambda>r. ic_Code r = code \<and> \<not> ic_DeletedAt r) (invite_codes db) of
             None \<Rightarrow> Inl ErrRecordNotFound
           | Some r \<Rightarrow> Inr r)"

text \<open>\<open>db.First(&x, id)\<close>, with the same soft-delete condition.\<close>

definition First_by_id :: "bool \<Rightarrow> nat \<Rightarrow> DB \<Rightarrow> gorm_error + InviteCode" where
  "First_by_id err i db =
     (if err then Inl ErrDriver
      else case find (\<lambda>r. ic_ID r = i \<and> \<not> ic_DeletedAt r) (invite_codes db) of
             None \<Rightarrow> Inl ErrRecordNotFound
           | Some r \<Rightarrow> Inr r)"

text \<open>
  \<open>Save(x)\<close> of a row with a primary key: every column of the row with that key is
  overwritten by the struct; when there is no such row the struct is inserted.
\<close>

definition save_row :: "InviteCode \<Rightarrow> InviteCode list \<Rightarrow> InviteCode list" where
  "save_row ic rows =
     (if list_ex (\<lambda>r. ic_ID r = ic_ID ic) rows
      then map (\<lambda>r. if ic_ID r = ic_ID ic then ic else r) rows
      else rows @ [ic])"

definition Save :: "env \<Rightarrow> InviteCode \<Rightarrow> DB \<Rightarrow> DB option" where
  "Save e ic db =
     (if save_err e then None
      else Some (db\<lparr>invite_codes := save_row ic (invite_codes db)\<rparr>))"

text \<open>\<open>Create(usage)\<close>: the row gets the next key of its table.\<close>

definition Create_usage :: "env \<Rightarrow> InviteCodeUsage \<Rightarrow> DB \<Rightarrow> (InviteCodeUsage \<times> DB) option" where
  "Create_usage e u db =
     (if create_err e then None
      else let u' = u\<lparr>iu_ID := invite_code_usages_seq db\<rparr>
           in Some (u', db\<lparr>invite_code_usages := invite_code_usages db @ [u'],
                          invite_code_usages_seq := invite_code_usages_seq db + 1\<rparr>))"

text \<open>
  \<open>Create(inviteCode)\<close>: \<open>code\<close> has a unique index, which counts soft-deleted rows
  too, so the insert fails when any row already has the code. A field that has a
  \<open>default:\<close> tag and holds its zero value is stored, and handed back in the struct,
  with the default: \<open>active\<close> for an empty \<open>Status\<close>, 10 for a \<open>MaxUses\<close> of 0 (and
  0 for \<open>UsedCount\<close>).
\<close>

definition Create_invite_code :: "env \<Rightarrow> InviteCode \<Rightarrow> DB \<Rightarrow> (InviteCode \<times> DB) option" where
  "Create_invite_code e ic db =
     (if create_err e \<or> ic_Code ic \<in> set (map ic_Code (invite_codes db)) then None
      else let ic' = ic\<lparr>ic_ID := invite_codes_seq db,
                        ic_Status := (if ic_Status ic = [] then ''active'' else ic_Status ic),
                        ic_MaxUses := (if ic_MaxUses ic = 0 then 10 else ic_MaxUses ic)\<rparr>
           in Some (ic', db\<lparr>invite_codes := invite_codes db @ [ic'],
                           invite_codes_seq := invite_codes_seq db + 1\<rparr>))"

text \<open>
  \<open>db.Delete(&model.InviteCode{}, id)\<close> is a soft delete: it sets \<open>deleted_at\<close> on the
  live row with that key and reports how many rows it changed.
\<close>

definition Delete_by_id :: "env \<Rightarrow> nat \<Rightarrow> DB \<Rightarrow> (nat \<times> DB) option" where
  "Delete_by_id e i db =
     (if delete_err e then None
      else Some (length (filter (\<lambda>r. ic_ID r = i \<and> \<not> ic_DeletedAt r) (invite_codes db)),
                 db\<lparr>invite_codes :=
                      map (\<lambda>r. if ic_ID r = i \<and> \<not> ic_DeletedAt r
                               then r\<lparr>ic_DeletedAt := True\<rparr> else r) (invite_codes db)\<rparr>))"

text \<open>
  A transaction: \<open>Begin\<close> hands out a working copy, statements sent through \<open>tx\<close>
  change the copy, \<open>Commit\<close> makes the copy the database and \<open>Rollback\<close> drops it.
\<close>

definition Begin :: "DB \<Rightarrow> DB" where
  "Begin db = db"

definition Rollback :: "DB \<Rightarrow> DB \<Rightarrow> DB" where
  "Rollback db tx = db"

definition Commit :: "env \<Rightarrow> DB \<Rightarrow> DB \<Rightarrow> DB option" where
  "Commit e db tx = (if commit_err e then None else Some tx)"


section \<open>InviteCodeService (redemption)\<close>

text \<open>The errors the services return, named after their messages.\<close>

datatype error =
    ErrInviteCodeNotFound       \<comment> \<open>invite code not found\<close>
  | ErrGetInviteCode            \<comment> \<open>failed to get invite code: ...\<close>
  | ErrMaxUsesReached           \<comment> \<open>invite code has reached maximum uses\<close>
  | ErrNotActive                \<comment> \<open>invite code is not active\<close>
  | ErrUpdateInviteCode         \<comment> \<open>failed to update invite code: ...\<close>
  | ErrCreateUsageRecord        \<comment> \<open>failed to create usage record: ...\<close>
  | ErrCommitTransaction        \<comment> \<open>failed to commit transaction: ...\<close>
  | ErrRandomBytes              \<comment> \<open>failed to generate random bytes: ...\<close>
  | ErrGenerateInviteCode       \<comment> \<open>failed to generate invite code: ...\<close>
  | ErrCreateInviteCode         \<comment> \<open>failed to create invite code: ...\<close>
  | ErrUpdateStatus             \<comment> \<open>failed to update invite code status: ...\<close>
  | ErrDeleteInviteCode         \<comment> \<open>failed to delete invite code: ...\<close>
  | ErrBinding                  \<comment> \<open>400, the request failed its binding tags\<close>
  | ErrForbidden                \<comment> \<open>403, not the creator and not an admin\<close>
  | ErrInternalServerError      \<comment> \<open>500, Failed to update invite code status\<close>
  | ErrInvalidInviteCode error  \<comment> \<open>invalid invite code: ...\<close>
  | ErrUserExists               \<comment> \<open>user with email ... already exists\<close>
  | ErrProcessPassword          \<comment> \<open>failed to process password\<close>
  | ErrCreateUserAccount        \<comment> \<open>failed to create user account\<close>
  | ErrGenerateToken            \<comment> \<open>failed to generate authentication token\<close>

definition GetInviteCodeByCode :: "env \<Rightarrow> string \<Rightarrow> DB \<Rightarrow> error + InviteCode" where
  "GetInviteCodeByCode e code db =
     (case First_by_code (get_err e) code db of
        Inl ErrRecordNotFound \<Rightarrow> Inl ErrInviteCodeNotFound
      | Inl ErrDriver \<Rightarrow> Inl ErrGetInviteCode
      | Inr ic \<Rightarrow> Inr ic)"

definition GetInviteCodeByID :: "env \<Rightarrow> nat \<Rightarrow> DB \<Rightarrow> error + InviteCode" where
  "GetInviteCodeByID e i db =
     (case First_by_id (get_err e) i db of
        Inl ErrRecordNotFound \<Rightarrow> Inl ErrInviteCodeNotFound
      | Inl ErrDriver \<Rightarrow> Inl ErrGetInviteCode
      | Inr ic \<Rightarrow> Inr ic)"

definition ValidateInviteCode :: "env \<Rightarrow> string \<Rightarrow> DB \<Rightarrow> error + InviteCode" where
  "ValidateInviteCode e code db =
     (case GetInviteCodeByCode e code db of
        Inl err \<Rightarrow> Inl err
      | Inr inviteCode \<Rightarrow>
          if \<not> CanBeUsed inviteCode then
            (if IsExhausted inviteCode then Inl ErrMaxUsesReached else Inl ErrNotActive)
          else Inr inviteCode)"

text \<open>
  \<open>UseInviteCode\<close> from the increment on (the statements sent through \<open>tx\<close>):
  \<open>db\<close> is the database, \<open>tx\<close> the open transaction.
\<close>

definition UseInviteCode_tx ::
  "env \<Rightarrow> InviteCode \<Rightarrow> nat \<Rightarrow> string \<Rightarrow> string \<Rightarrow> DB \<Rightarrow> DB \<Rightarrow> (error + InviteCode) \<times> DB" where
  "UseInviteCode_tx e ic0 userID ipAddress userAgent db tx =
     (let ic1 = ic0\<lparr>ic_UsedCount := ic_UsedCount ic0 + 1\<rparr>;
          inviteCode = (if ic_UsedCount ic1 \<ge> ic_MaxUses ic1
                        then ic1\<lparr>ic_Status := InviteCodeStatusUsed\<rparr> else ic1);
          usage = \<lparr>iu_ID = 0, iu_InviteCodeID = ic_ID inviteCode, iu_UsedByID = userID,
                   iu_UsedAt = now e, iu_IPAddress = ipAddress, iu_UserAgent = userAgent\<rparr>
      in (case Save e inviteCode tx of
            None \<Rightarrow> (Inl ErrUpdateInviteCode, Rollback db tx)
          | Some tx1 \<Rightarrow>
              (case Create_usage e usage tx1 of
                 None \<Rightarrow> (Inl ErrCreateUsageRecord, Rollback db tx1)
               | Some (created, tx2) \<Rightarrow>
                   (case Commit e db tx2 of
                      None \<Rightarrow> (Inl ErrCommitTransaction, db)
                    | Some db' \<Rightarrow> (Inr inviteCode, db')))))"

text \<open>
  \<open>UseInviteCode\<close>. The validation goes through \<open>s.ValidateInviteCode\<close>, which reads
  with the service's own handle \<open>s.db\<close>, not with \<open>tx\<close>.
\<close>

definition UseInviteCode ::
  "env \<Rightarrow> string \<Rightarrow> nat \<Rightarrow> string \<Rightarrow> string \<Rightarrow> DB \<Rightarrow> (error + InviteCode) \<times> DB" where
  "UseInviteCode e code userID ipAddress userAgent db =
     (let tx = Begin db
      in case ValidateInviteCode e code db of
           Inl err \<Rightarrow> (Inl err, Rollback db tx)
         | Inr inviteCode \<Rightarrow> UseInviteCode_tx e inviteCode userID ipAddress userAgent db tx)"


section \<open>InviteCodeService (generation and creation)\<close>

text \<open>
  \<open>hex.EncodeToString\<close>: two characters of \<open>hextable\<close> for each byte, the high
  nibble first. Both indices are below 16.
\<close>

definition hextable :: string where
  "hextable = ''0123456789abcdef''"

fun EncodeToString :: "8 word list \<Rightarrow> string" where
  "EncodeToString [] = []"
| "EncodeToString (v # vs) =
     hextable ! unat (drop_bit 4 v) # hextable ! unat (v AND 15) # EncodeToString vs"

text \<open>
  One attempt of \<open>GenerateInviteCode\<close> consumes one draw of the surroundings: the 16
  bytes that \<open>rand.Read\<close> puts into the buffer, as the 128 bits they are (\<open>None\<close> when
  \<open>rand.Read\<close> returns an error), and whether the existence query fails with a driver
  error. \<open>bytes_of\<close> is the buffer, first byte first.
\<close>

record draw =
  rnd :: "128 word option"
  lookup_err :: bool

definition bytes_of :: "128 word \<Rightarrow> 8 word list" where
  "bytes_of w = map (\<lambda>i. ucast (drop_bit (8 * (15 - i)) w)) [0..<16]"

text \<open>
  \<open>GenerateInviteCode\<close> calls itself when the candidate exists, with no bound on the
  depth. The recursion here is over the draws that the surroundings supply; the result
  is \<open>None\<close> when all of them are used up and the function has not returned. The
  candidate counts as existing only when the query returns no error at all
  (\<open>err == nil\<close>).
\<close>

fun GenerateInviteCode :: "draw list \<Rightarrow> DB \<Rightarrow> (error + string) option \<times> DB" where
  "GenerateInviteCode [] db = (None, db)"
| "GenerateInviteCode (d # ds) db =
     (case rnd d of
        None \<Rightarrow> (Some (Inl ErrRandomBytes), db)
      | Some w \<Rightarrow>
          let code = EncodeToString (bytes_of w)
          in (case First_by_code (lookup_err d) code db of
                Inr existingCode \<Rightarrow> GenerateInviteCode ds db
              | Inl err \<Rightarrow> (Some (Inr code), db)))"

record CreateInviteCodeRequest =
  req_MaxUses :: int
  req_Description :: string

definition CreateInviteCode ::
  "env \<Rightarrow> draw list \<Rightarrow> nat \<Rightarrow> CreateInviteCodeRequest \<Rightarrow> DB
     \<Rightarrow> (error + InviteCode) option \<times> DB" where
  "CreateInviteCode e draws createdByID req db =
     (case GenerateInviteCode draws db of
        (None, db1) \<Rightarrow> (None, db1)
      | (Some (Inl err), db1) \<Rightarrow> (Some (Inl ErrGenerateInviteCode), db1)
      | (Some (Inr code), db1) \<Rightarrow>
          let inviteCode = \<lparr>ic_ID = 0, ic_Code = code, ic_CreatedByID = createdByID,
                            ic_Status = InviteCodeStatusActive, ic_MaxUses = req_MaxUses req,
                            ic_UsedCount = 0, ic_Description = req_Description req,
                            ic_Metadata = [], ic_DeletedAt = False\<rparr>
          in (case Create_invite_code e inviteCode db1 of
                None \<Rightarrow> (Some (Inl ErrCreateInviteCode), db1)
              | Some (created, db2) \<Rightarrow> (Some (Inr created), db2)))"

text \<open>
  The binding tags of \<open>CreateInviteCodeRequest\<close>, checked by \<open>ShouldBindJSON\<close> in the
  handler: \<open>min=1,max=100\<close> on \<open>MaxUses\<close> and \<open>max=255\<close> on \<open>Description\<close>. For a
  string \<open>max\<close> bounds the number of characters; a \<open>string\<close> of this theory is the
  sequence of the description's characters.
\<close>

definition bind_CreateInviteCodeRequest :: "CreateInviteCodeRequest \<Rightarrow> bool" where
  "bind_CreateInviteCodeRequest req =
     (1 \<le> req_MaxUses req \<and> req_MaxUses req \<le> 100 \<and> length (req_Description req) \<le> 255)"

text \<open>
  The handler \<open>InviteCodeHandler.CreateInviteCode\<close> for an authenticated user: bind,
  then call the service. Both failures are answered with 400.
\<close>

definition Handler_CreateInviteCode ::
  "env \<Rightarrow> draw list \<Rightarrow> User \<Rightarrow> CreateInviteCodeRequest \<Rightarrow> DB
     \<Rightarrow> (error + InviteCode) option \<times> DB" where
  "Handler_CreateInviteCode e draws user req db =
     (if \<not> bind_CreateInviteCodeRequest req then (Some (Inl ErrBinding), db)
      else CreateInviteCode e draws (u_ID user) req db)"


section \<open>InviteCodeService (status, deletion), InviteCodeUsageService\<close>

definition UpdateInviteCodeStatus ::
  "env \<Rightarrow> nat \<Rightarrow> string \<Rightarrow> DB \<Rightarrow> (error + InviteCode) \<times> DB" where
  "UpdateInviteCodeStatus e i status db =
     (case First_by_id (get_err e) i db of
        Inl ErrRecordNotFound \<Rightarrow> (Inl ErrInviteCodeNotFound, db)
      | Inl ErrDriver \<Rightarrow> (Inl ErrGetInviteCode, db)
      | Inr ic \<Rightarrow>
          let inviteCode = ic\<lparr>ic_Status := status\<rparr>
          in (case Save e inviteCode db of
                None \<Rightarrow> (Inl ErrUpdateStatus, db)
              | Some db' \<Rightarrow> (Inr inviteCode, db')))"

text \<open>
  The handler \<open>InviteCodeHandler.UpdateInviteCodeStatus\<close>: the body is bound to a
  struct whose \<open>Status\<close> carries \<open>binding:"required,oneof=active disabled"\<close>; then the
  code is read, the caller must be its creator or an admin, and the service is called;
  an error of the service is answered with 500. The two service calls have their own
  surroundings.
\<close>

definition bind_status :: "string \<Rightarrow> bool" where
  "bind_status status = (status \<noteq> [] \<and> (status = ''active'' \<or> status = ''disabled''))"

definition Handler_UpdateInviteCodeStatus ::
  "env \<Rightarrow> env \<Rightarrow> User \<Rightarrow> nat \<Rightarrow> string \<Rightarrow> DB \<Rightarrow> (error + InviteCode) \<times> DB" where
  "Handler_UpdateInviteCodeStatus e1 e2 user i status db =
     (if \<not> bind_status status then (Inl ErrBinding, db)
      else case GetInviteCodeByID e1 i db of
             Inl err \<Rightarrow> (Inl ErrInviteCodeNotFound, db)
           | Inr inviteCode \<Rightarrow>
               if ic_CreatedByID inviteCode \<noteq> u_ID user \<and> \<not> IsAdmin user
               then (Inl ErrForbidden, db)
               else (case UpdateInviteCodeStatus e2 i status db of
                       (Inl err, db') \<Rightarrow> (Inl ErrInternalServerError, db')
                     | (Inr updatedCode, db') \<Rightarrow> (Inr updatedCode, db')))"

definition DeleteInviteCode :: "env \<Rightarrow> nat \<Rightarrow> DB \<Rightarrow> (error + unit) \<times> DB" where
  "DeleteInviteCode e i db =
     (case Delete_by_id e i db of
        None \<Rightarrow> (Inl ErrDeleteInviteCode, db)
      | Some (rowsAffected, db') \<Rightarrow>
          if rowsAffected = 0 then (Inl ErrInviteCodeNotFound, db') else (Inr (), db'))"

text \<open>
  \<open>InviteCodeUsageService.CreateUsageRecord\<close> inserts a ledger row on its own. Nothing
  in the repository calls it.
\<close>

definition CreateUsageRecord ::
  "env \<Rightarrow> nat \<Rightarrow> nat \<Rightarrow> string \<Rightarrow> string \<Rightarrow> DB \<Rightarrow> (error + InviteCodeUsage) \<times> DB" where
  "CreateUsageRecord e inviteCodeID userID ipAddress userAgent db =
     (let usage = \<lparr>iu_ID = 0, iu_InviteCodeID = inviteCodeID, iu_UsedByID = userID,
                   iu_UsedAt = now e, iu_IPAddress = ipAddress, iu_UserAgent = userAgent\<rparr>
      in case Create_usage e usage db of
           None \<Rightarrow> (Inl ErrCreateUsageRecord, db)
         | Some (created, db') \<Rightarrow> (Inr created, db'))"


section \<open>AuthService.Register\<close>

text \<open>
  \<open>users.email\<close> has a unique index too. \<open>GetUserByEmail\<close> reads the live row with
  the address; \<open>CreateUser\<close> inserts and fails on a driver error or a duplicate address.
  The columns \<open>provider\<close>, \<open>status\<close> and \<open>role\<close> have defaults (\<open>local\<close>, \<open>active\<close>,
  \<open>user\<close>), which replace an empty value.
\<close>

definition GetUserByEmail :: "bool \<Rightarrow> string \<Rightarrow> DB \<Rightarrow> User option" where
  "GetUserByEmail err email db =
     (if err then None
      else find (\<lambda>u. u_Email u = email \<and> \<not> u_DeletedAt u) (users db))"

definition CreateUser :: "bool \<Rightarrow> User \<Rightarrow> DB \<Rightarrow> (User \<times> DB) option" where
  "CreateUser err user db =
     (if err \<or> u_Email user \<in> set (map u_Email (users db)) then None
      else let created = user\<lparr>u_ID := users_seq db,
                             u_Provider := (if u_Provider user = [] then ''local''
                                            else u_Provider user),
                             u_Status := (if u_Status user = [] then ''active''
                                          else u_Status user),
                             u_Role := (if u_Role user = [] then ''user'' else u_Role user)\<rparr>
           in Some (created, db\<lparr>users := users db @ [created], users_seq := users_seq db + 1\<rparr>))"

record RegisterRequest =
  rr_Email :: string
  rr_Password :: string
  rr_InviteCode :: string

text \<open>
  The surroundings of one \<open>Register\<close> call: those of its two calls into the invite
  code service, whether the user lookup and the user insert fail, the bcrypt hash
  (\<open>None\<close> when hashing fails), the name and the user name that the string helpers
  derive from the address (\<open>generateUniqueUsername\<close> draws random numbers), and the
  token of \<open>GenerateToken\<close> (\<open>None\<close> when it fails). \<open>Register\<close> leaves \<open>Role\<close>
  empty.
\<close>

record reg_env =
  validate_env :: env
  use_env :: env
  user_get_err :: bool
  hashed :: "string option"
  derived_name :: string
  derived_username :: string
  user_create_err :: bool
  token :: "string option"

definition Register ::
  "reg_env \<Rightarrow> RegisterRequest \<Rightarrow> DB \<Rightarrow> (error + User \<times> string) \<times> DB" where
  "Register re req db =
     (case (if rr_InviteCode req \<noteq> []
            then (case ValidateInviteCode (validate_env re) (rr_InviteCode req) db of
                    Inl err \<Rightarrow> Inl (ErrInvalidInviteCode err)
                  | Inr validatedCode \<Rightarrow> Inr (Some validatedCode))
            else Inr None) of
        Inl err \<Rightarrow> (Inl err, db)
      | Inr inviteCode \<Rightarrow>
          if GetUserByEmail (user_get_err re) (rr_Email req) db \<noteq> None
          then (Inl ErrUserExists, db)
          else (case hashed re of
                  None \<Rightarrow> (Inl ErrProcessPassword, db)
                | Some hashedPassword \<Rightarrow>
                    let user = \<lparr>u_ID = 0, u_Email = rr_Email req, u_Name = derived_name re,
                                u_Username = derived_username re, u_Password = hashedPassword,
                                u_Provider = ProviderLocal, u_Status = UserStatusActive,
                                u_Role = [],
                                u_InviteCodeID = map_option ic_ID inviteCode,
                                u_InviteCodeUsed = map_option ic_Code inviteCode,
                                u_DeletedAt = False\<rparr>
                    in (case CreateUser (user_create_err re) user db of
                          None \<Rightarrow> (Inl ErrCreateUserAccount, db)
                        | Some (created, db1) \<Rightarrow>
                            let db2 = (case inviteCode of
                                         None \<Rightarrow> db1
                                       | Some ic \<Rightarrow>
                                           snd (UseInviteCode (use_env re) (ic_Code ic)
                                                  (u_ID created) ''unknown'' ''unknown'' db1))
                            in (case token re of
                                  None \<Rightarrow> (Inl ErrGenerateToken, db2)
                                | Some t \<Rightarrow> (Inr (created, t), db2)))))"


section \<open>Sequences of operations\<close>

text \<open>
  The operations that change the invite code tables, each with the surroundings of
  its call: creation through the handler, redemption, the status update of the
  service (with any status string), the soft delete, and registration.
\<close>

datatype op =
    OpCreate env "draw list" User CreateInviteCodeRequest
  | OpRedeem env string nat string string
  | OpUpdateStatus env nat string
  | OpDelete env nat
  | OpRegister reg_env RegisterRequest

fun apply_op :: "op \<Rightarrow> DB \<Rightarrow> DB" where
  "apply_op (OpCreate e draws user req) db = snd (Handler_CreateInviteCode e draws user req db)"
| "apply_op (OpRedeem e code userID ip ua) db = snd (UseInviteCode e code userID ip ua db)"
| "apply_op (OpUpdateStatus e i status) db = snd (UpdateInviteCodeStatus e i status db)"
| "apply_op (OpDelete e i) db = snd (DeleteInviteCode e i db)"
| "apply_op (OpRegister re req) db = snd (Register re req db)"

fun run :: "op list \<Rightarrow> DB \<Rightarrow> DB" where
  "run [] db = db"
| "run (x # xs) db = run xs (apply_op x db)"


section \<open>Redemptions that overlap\<close>

text \<open>
  Each request runs on its own goroutine and the database is all they share. A
  redemption sends two things to it: the query of \<open>ValidateInviteCode\<close>, through
  \<open>s.db\<close> and so outside the transaction and without a lock, and then the statements
  of the transaction, from the update of the row to the commit. The update locks the
  row until the commit, so the transactions on one code do not overlap each other;
  but between the query and the transaction of one attempt, other attempts may be
  served. The transaction works on the database as it is when its first statement
  arrives, and writes the row as the attempt read it, with the count raised.

  An attempt is therefore in one of three phases, and a schedule (the list of the
  attempts' indices, in the order in which the database serves them) moves one
  attempt one phase forward at a time. Attempt \<open>i\<close> redeems for user \<open>i\<close>, and no
  statement fails.
\<close>

datatype phase =
    Pending
  | Validated InviteCode
  | Finished "error + InviteCode"

fun attempt_step :: "string \<Rightarrow> nat \<Rightarrow> phase \<Rightarrow> DB \<Rightarrow> phase \<times> DB" where
  "attempt_step code userID Pending db =
     (case ValidateInviteCode no_faults code db of
        Inl err \<Rightarrow> (Finished (Inl err), db)
      | Inr inviteCode \<Rightarrow> (Validated inviteCode, db))"
| "attempt_step code userID (Validated inviteCode) db =
     (case UseInviteCode_tx no_faults inviteCode userID ''unknown'' ''unknown'' db (Begin db) of
        (r, db') \<Rightarrow> (Finished r, db'))"
| "attempt_step code userID (Finished r) db = (Finished r, db)"

fun run_schedule :: "string \<Rightarrow> nat list \<Rightarrow> phase list \<times> DB \<Rightarrow> phase list \<times> DB" where
  "run_schedule code [] st = st"
| "run_schedule code (i # sched) (ps, db) =
     (if i < length ps
      then (case attempt_step code i (ps ! i) db of
              (p, db') \<Rightarrow> run_schedule code sched (ps[i := p], db'))
      else run_schedule code sched (ps, db))"


section \<open>Notions used in the statements\<close>

text \<open>The row that a redemption writes back, from the row it read.\<close>

definition redeemed :: "InviteCode \<Rightarrow> InviteCode" where
  "redeemed ic0 =
     (if ic_UsedCount ic0 + 1 \<ge> ic_MaxUses ic0
      then ic0\<lparr>ic_UsedCount := ic_UsedCount ic0 + 1, ic_Status := InviteCodeStatusUsed\<rparr>
      else ic0\<lparr>ic_UsedCount := ic_UsedCount ic0 + 1\<rparr>)"

text \<open>The live (not soft-deleted) row with a code, and the ledger rows of a code.\<close>

definition live_by_code :: "string \<Rightarrow> DB \<Rightarrow> InviteCode option" where
  "live_by_code code db = find (\<lambda>r. ic_Code r = code \<and> \<not> ic_DeletedAt r) (invite_codes db)"

definition usage_count :: "DB \<Rightarrow> nat \<Rightarrow> nat" where
  "usage_count db i = length (filter (\<lambda>u. iu_InviteCodeID u = i) (invite_code_usages db))"

text \<open>
  Keys are handed out by the auto-increment counter: they are distinct and below
  the counter, and the ledger refers to keys that have been handed out. The counts
  are within their bounds, and the ledger has as many entries for a code as its count
  says.
\<close>

definition keys_ok :: "DB \<Rightarrow> bool" where
  "keys_ok db =
     (distinct (map ic_ID (invite_codes db)) \<and>
      (\<forall>ic \<in> set (invite_codes db). ic_ID ic < invite_codes_seq db) \<and>
      (\<forall>u \<in> set (invite_code_usages db). iu_InviteCodeID u < invite_codes_seq db))"

definition bounds_ok :: "DB \<Rightarrow> bool" where
  "bounds_ok db =
     (\<forall>ic \<in> set (invite_codes db). 0 \<le> ic_UsedCount ic \<and> ic_UsedCount ic \<le> ic_MaxUses ic)"

definition ledger_complete :: "DB \<Rightarrow> bool" where
  "ledger_complete db =
     (\<forall>ic \<in> set (invite_codes db). int (usage_count db (ic_ID ic)) = ic_UsedCount ic)"

definition consistent :: "DB \<Rightarrow> bool" where
  "consistent db = (keys_ok db \<and> bounds_ok db \<and> ledger_complete db)"

text \<open>The database after a user row has been inserted.\<close>

definition with_user :: "User \<Rightarrow> DB \<Rightarrow> DB" where
  "with_user u db = db\<lparr>users := users db @ [u], users_seq := users_seq db + 1\<rparr>"

text \<open>
  A draw collides when its candidate is found among the live rows. The keys of the
  rows whose status is used. An attempt that has validated holds a row that still
  has a use left.
\<close>

definition collides :: "DB \<Rightarrow> draw \<Rightarrow> bool" where
  "collides db d =
     (case rnd d of
        None \<Rightarrow> False
      | Some w \<Rightarrow> \<not> lookup_err d \<and> live_by_code (EncodeToString (bytes_of w)) db \<noteq> None)"

definition used_keys :: "DB \<Rightarrow> nat set" where
  "used_keys db = ic_ID ` {r \<in> set (invite_codes db). ic_Status r = InviteCodeStatusUsed}"

fun phase_ok :: "phase \<Rightarrow> bool" where
  "phase_ok (Validated ic) = (0 \<le> ic_UsedCount ic \<and> ic_UsedCount ic < ic_MaxUses ic)"
| "phase_ok p = True"


section \<open>A running example\<close>

text \<open>
  User 7 creates a single-use code while the random source returns sixteen zero
  bytes; a second draw, and a request for a code with three uses.
\<close>

definition ex_user :: User where
  "ex_user = \<lparr>u_ID = 7, u_Email = ''owner@example.com'', u_Name = ''Owner'',
               u_Username = ''owner'', u_Password = ''$2a$10$hash'', u_Provider = ProviderLocal,
               u_Status = UserStatusActive, u_Role = UserRoleUser, u_InviteCodeID = None,
               u_InviteCodeUsed = None, u_DeletedAt = False\<rparr>"

definition ex_draw :: draw where
  "ex_draw = \<lparr>rnd = Some 0, lookup_err = False\<rparr>"

definition ex_draw1 :: draw where
  "ex_draw1 = \<lparr>rnd = Some 1, lookup_err = False\<rparr>"

definition ex_code_string :: string where
  "ex_code_string = ''00000000000000000000000000000000''"

definition ex_code :: InviteCode where
  "ex_code = \<lparr>ic_ID = 1, ic_Code = ex_code_string, ic_CreatedByID = 7,
               ic_Status = ''active'', ic_MaxUses = 1, ic_UsedCount = 0,
               ic_Description = ''solo'', ic_Metadata = [], ic_DeletedAt = False\<rparr>"

definition ex_db :: DB where
  "ex_db = \<lparr>invite_codes = [ex_code], invite_code_usages = [], users = [],
             invite_codes_seq = 2, invite_code_usages_seq = 1, users_seq = 1\<rparr>"

definition ex_team_req :: CreateInviteCodeRequest where
  "ex_team_req = \<lparr>req_MaxUses = 3, req_Description = ''team invite''\<rparr>"

text \<open>
  The code disabled, soft-deleted, and redeemed by user 9; the ledger entries that
  redemptions leave; the creation followed by the redemption, as a sequence of
  operations; surroundings in which the ledger insert fails.
\<close>

definition ex_disabled :: DB where
  "ex_disabled = snd (UpdateInviteCodeStatus no_faults 1 InviteCodeStatusDisabled ex_db)"

definition ex_deleted :: DB where
  "ex_deleted = snd (DeleteInviteCode no_faults 1 ex_db)"

definition ex_used_row :: InviteCode where
  "ex_used_row = ex_code\<lparr>ic_UsedCount := 1, ic_Status := ''used''\<rparr>"

definition ex_used :: DB where
  "ex_used = snd (UseInviteCode no_faults ex_code_string 9 ''10.0.0.1'' ''curl'' ex_db)"

definition ex_usage :: "nat \<Rightarrow> nat \<Rightarrow> InviteCodeUsage" where
  "ex_usage k uid = \<lparr>iu_ID = k, iu_InviteCodeID = 1, iu_UsedByID = uid, iu_UsedAt = 0,
                     iu_IPAddress = ''unknown'', iu_UserAgent = ''unknown''\<rparr>"

definition ex_ops :: "op list" where
  "ex_ops = [OpCreate no_faults [ex_draw] ex_user \<lparr>req_MaxUses = 1, req_Description = ''solo''\<rparr>,
             OpRedeem no_faults ex_code_string 9 ''10.0.0.1'' ''curl'']"

definition create_fails :: env where
  "create_fails = no_faults\<lparr>create_err := True\<rparr>"

text \<open>
  A registration with the code, during which the commit of the redemption fails,
  and the user row it inserts.
\<close>

definition ex_req :: RegisterRequest where
  "ex_req = \<lparr>rr_Email = ''new@example.com'', rr_Password = ''secret1'',
              rr_InviteCode = ex_code_string\<rparr>"

definition ex_reg_env :: reg_env where
  "ex_reg_env = \<lparr>validate_env = no_faults, use_env = no_faults\<lparr>commit_err := True\<rparr>,
                  user_get_err = False, hashed = Some ''$2a$10$abc'', derived_name = ''New'',
                  derived_username = ''new'', user_create_err = False, token = Some ''jwt''\<rparr>"

definition ex_new_user :: User where
  "ex_new_user = \<lparr>u_ID = 1, u_Email = ''new@example.com'', u_Name = ''New'',
                   u_Username = ''new'', u_Password = ''$2a$10$abc'', u_Provider = ProviderLocal,
                   u_Status = UserStatusActive, u_Role = UserRoleUser, u_InviteCodeID = Some 1,
                   u_InviteCodeUsed = Some ex_code_string, u_DeletedAt = False\<rparr>"


section \<open>What a redemption does\<close>

lemma ValidateInviteCode_Inr:
  assumes "ValidateInviteCode e code db = Inr ic"
  shows "\<not> get_err e" and "live_by_code code db = Some ic"
    and "ic_Status ic = InviteCodeStatusActive" and "ic_UsedCount ic < ic_MaxUses ic"
  using assms
  by (auto simp: ValidateInviteCode_def GetInviteCodeByCode_def First_by_code_def CanBeUsed_def
      IsActive_def live_by_code_def split: if_splits option.splits sum.splits gorm_error.splits)

lemma live_by_code_mem: "live_by_code code db = Some ic \<Longrightarrow> ic \<in> set (invite_codes db)"
  by (auto simp: live_by_code_def find_Some_iff)

lemma UseInviteCode_tx_cases:
  "UseInviteCode_tx e ic0 uid ip ua db db =
     (if save_err e then (Inl ErrUpdateInviteCode, db)
      else if create_err e then (Inl ErrCreateUsageRecord, db)
      else if commit_err e then (Inl ErrCommitTransaction, db)
      else (Inr (redeemed ic0),
            db\<lparr>invite_codes := save_row (redeemed ic0) (invite_codes db),
               invite_code_usages := invite_code_usages db @
                 [\<lparr>iu_ID = invite_code_usages_seq db, iu_InviteCodeID = ic_ID ic0,
                   iu_UsedByID = uid, iu_UsedAt = now e, iu_IPAddress = ip, iu_UserAgent = ua\<rparr>],
               invite_code_usages_seq := invite_code_usages_seq db + 1\<rparr>))"
  by (simp add: UseInviteCode_tx_def Let_def Rollback_def Commit_def Save_def Create_usage_def
      redeemed_def)

lemma UseInviteCode_cases:
  "UseInviteCode e code uid ip ua db =
     (case ValidateInviteCode e code db of
        Inl err \<Rightarrow> (Inl err, db)
      | Inr ic0 \<Rightarrow> UseInviteCode_tx e ic0 uid ip ua db db)"
  by (simp add: UseInviteCode_def Begin_def Rollback_def split: sum.splits)

lemma UseInviteCode_Inl:
  "UseInviteCode e code uid ip ua db = (Inl err, db') \<Longrightarrow> db' = db"
  by (auto simp: UseInviteCode_cases UseInviteCode_tx_cases split: sum.splits if_splits)

lemma UseInviteCode_Inr:
  assumes "UseInviteCode e code uid ip ua db = (Inr ic, db')"
  shows "\<exists>ic0. ValidateInviteCode e code db = Inr ic0 \<and> ic = redeemed ic0 \<and>
     db' = db\<lparr>invite_codes := save_row ic (invite_codes db),
              invite_code_usages := invite_code_usages db @
                 [\<lparr>iu_ID = invite_code_usages_seq db, iu_InviteCodeID = ic_ID ic0,
                   iu_UsedByID = uid, iu_UsedAt = now e, iu_IPAddress = ip, iu_UserAgent = ua\<rparr>],
              invite_code_usages_seq := invite_code_usages_seq db + 1\<rparr>"
  using assms
  by (auto simp: UseInviteCode_cases UseInviteCode_tx_cases split: sum.splits if_splits)

lemma ex_db_created:
  "Handler_CreateInviteCode no_faults [ex_draw] ex_user
     \<lparr>req_MaxUses = 1, req_Description = ''solo''\<rparr> empty_db = (Some (Inr ex_code), ex_db)"
  by (simp add: Handler_CreateInviteCode_def bind_CreateInviteCodeRequest_def CreateInviteCode_def
      ex_draw_def ex_user_def ex_code_def ex_db_def empty_db_def no_faults_def First_by_code_def
      Create_invite_code_def InviteCodeStatusActive_def bytes_of_def hextable_def
      ex_code_string_def upt_rec Let_def)

lemma ex_disabled_eq:
  "ex_disabled = ex_db\<lparr>invite_codes := [ex_code\<lparr>ic_Status := ''disabled''\<rparr>]\<rparr>"
  by (simp add: ex_disabled_def UpdateInviteCodeStatus_def First_by_id_def no_faults_def ex_db_def
      ex_code_def Save_def save_row_def InviteCodeStatusDisabled_def Let_def)


section \<open>Redemption is all or nothing\<close>

text \<open>
  C2. A call of \<open>UseInviteCode\<close> either fails and leaves the database as it was, or
  succeeds, and then the row of the code has its counter raised by one (with the
  status set to used when the cap is reached) and the ledger has exactly one more
  entry, for this code and this user. When the validation has passed and the update,
  the ledger insert or the commit fails, the caller gets an error and the database is
  unchanged.
\<close>

theorem UseInviteCode_all_or_nothing:
  "(case UseInviteCode e code userID ip ua db of
      (Inl err, db') \<Rightarrow> db' = db
    | (Inr ic, db') \<Rightarrow>
        (\<exists>ic0 usage.
           live_by_code code db = Some ic0 \<and>
           ic_ID ic = ic_ID ic0 \<and> ic_UsedCount ic = ic_UsedCount ic0 + 1 \<and>
           ic_Status ic = (if ic_MaxUses ic0 \<le> ic_UsedCount ic0 + 1
                           then InviteCodeStatusUsed else ic_Status ic0) \<and>
           invite_codes db' = save_row ic (invite_codes db) \<and>
           invite_code_usages db' = invite_code_usages db @ [usage] \<and>
           iu_InviteCodeID usage = ic_ID ic \<and> iu_UsedByID usage = userID))
   \<and> (\<forall>ic0. ValidateInviteCode e code db = Inr ic0 \<longrightarrow>
          save_err e \<or> create_err e \<or> commit_err e \<longrightarrow>
          (\<exists>err. UseInviteCode e code userID ip ua db = (Inl err, db)))"
proof (intro conjI allI impI)
  show "case UseInviteCode e code userID ip ua db of
      (Inl err, db') \<Rightarrow> db' = db
    | (Inr ic, db') \<Rightarrow>
        (\<exists>ic0 usage.
           live_by_code code db = Some ic0 \<and>
           ic_ID ic = ic_ID ic0 \<and> ic_UsedCount ic = ic_UsedCount ic0 + 1 \<and>
           ic_Status ic = (if ic_MaxUses ic0 \<le> ic_UsedCount ic0 + 1
                           then InviteCodeStatusUsed else ic_Status ic0) \<and>
           invite_codes db' = save_row ic (invite_codes db) \<and>
           invite_code_usages db' = invite_code_usages db @ [usage] \<and>
           iu_InviteCodeID usage = ic_ID ic \<and> iu_UsedByID usage = userID)"
  proof (cases "UseInviteCode e code userID ip ua db")
    case (Pair r db')
    show ?thesis
    proof (cases r)
      case (Inl err)
      with Pair show ?thesis by (simp add: UseInviteCode_Inl)
    next
      case (Inr ic)
      with Pair have u: "UseInviteCode e code userID ip ua db = (Inr ic, db')" by simp
      from UseInviteCode_Inr [OF u] obtain ic0 where
        v: "ValidateInviteCode e code db = Inr ic0" and r: "ic = redeemed ic0" and
        d: "db' = db\<lparr>invite_codes := save_row ic (invite_codes db),
              invite_code_usages := invite_code_usages db @
                 [\<lparr>iu_ID = invite_code_usages_seq db, iu_InviteCodeID = ic_ID ic0,
                   iu_UsedByID = userID, iu_UsedAt = now e, iu_IPAddress = ip,
                   iu_UserAgent = ua\<rparr>],
              invite_code_usages_seq := invite_code_usages_seq db + 1\<rparr>"
        by blast
      have l: "live_by_code code db = Some ic0" using v by (rule ValidateInviteCode_Inr)
      show ?thesis
        unfolding u using l r d by (simp add: redeemed_def)
    qed
  qed
next
  fix ic0
  assume "ValidateInviteCode e code db = Inr ic0" and "save_err e \<or> create_err e \<or> commit_err e"
  then show "\<exists>err. UseInviteCode e code userID ip ua db = (Inl err, db)"
    by (auto simp: UseInviteCode_cases UseInviteCode_tx_cases)
qed

theorem UseInviteCode_all_or_nothing_witness:
  "ValidateInviteCode create_fails ex_code_string ex_db = Inr ex_code \<and> create_err create_fails \<and>
   (\<exists>err. UseInviteCode create_fails ex_code_string 9 ''10.0.0.1'' ''curl'' ex_db = (Inl err, ex_db))"
proof -
  have v: "ValidateInviteCode create_fails ex_code_string ex_db = Inr ex_code"
    by (simp add: ValidateInviteCode_def GetInviteCodeByCode_def First_by_code_def no_faults_def
      create_fails_def ex_db_def ex_code_def CanBeUsed_def IsActive_def IsDeleted_def
      InviteCodeStatusActive_def)
  have f: "create_err create_fails"
    by (simp add: create_fails_def)
  from UseInviteCode_all_or_nothing [where e = create_fails and code = ex_code_string and userID = 9
      and ip = "''10.0.0.1''" and ua = "''curl''" and db = ex_db] v f
  show ?thesis by blast
qed


section \<open>Which error a rejected redemption returns\<close>

text \<open>
  C4. When the lookup itself does not fail, a redemption is rejected with: not found,
  when every row with the code is soft-deleted (in particular when there is none);
  maximum uses reached, when the live row has \<open>UsedCount \<ge> MaxUses\<close>, whatever its
  status; not active, when the live row has uses left and its status is not active.
  In particular a disabled code with no use and a cap of at least one is rejected
  with not active. The database is unchanged in each case, so the counter stays
  where it was.
\<close>

theorem redemption_error_selection:
  assumes "\<not> get_err e"
  shows "((\<forall>r \<in> set (invite_codes db). ic_Code r = code \<longrightarrow> ic_DeletedAt r) \<longrightarrow>
            UseInviteCode e code userID ip ua db = (Inl ErrInviteCodeNotFound, db))
       \<and> (\<forall>ic. live_by_code code db = Some ic \<and> ic_MaxUses ic \<le> ic_UsedCount ic \<longrightarrow>
            UseInviteCode e code userID ip ua db = (Inl ErrMaxUsesReached, db))
       \<and> (\<forall>ic. live_by_code code db = Some ic \<and> ic_UsedCount ic < ic_MaxUses ic \<and>
               ic_Status ic \<noteq> InviteCodeStatusActive \<longrightarrow>
            UseInviteCode e code userID ip ua db = (Inl ErrNotActive, db))
       \<and> (\<forall>ic. live_by_code code db = Some ic \<and> ic_Status ic = InviteCodeStatusDisabled \<and>
               ic_UsedCount ic = 0 \<and> 1 \<le> ic_MaxUses ic \<longrightarrow>
            UseInviteCode e code userID ip ua db = (Inl ErrNotActive, db))"
proof (intro conjI allI impI)
  assume "\<forall>r \<in> set (invite_codes db). ic_Code r = code \<longrightarrow> ic_DeletedAt r"
  then have "find (\<lambda>r. ic_Code r = code \<and> \<not> ic_DeletedAt r) (invite_codes db) = None"
    by (auto simp: find_None_iff)
  with assms show "UseInviteCode e code userID ip ua db = (Inl ErrInviteCodeNotFound, db)"
    by (simp add: UseInviteCode_cases ValidateInviteCode_def GetInviteCodeByCode_def
        First_by_code_def)
next
  fix ic
  assume "live_by_code code db = Some ic \<and> ic_MaxUses ic \<le> ic_UsedCount ic"
  with assms show "UseInviteCode e code userID ip ua db = (Inl ErrMaxUsesReached, db)"
    by (simp add: UseInviteCode_cases ValidateInviteCode_def GetInviteCodeByCode_def
        First_by_code_def live_by_code_def CanBeUsed_def IsActive_def IsExhausted_def)
next
  fix ic
  assume "live_by_code code db = Some ic \<and> ic_UsedCount ic < ic_MaxUses ic \<and>
               ic_Status ic \<noteq> InviteCodeStatusActive"
  with assms show "UseInviteCode e code userID ip ua db = (Inl ErrNotActive, db)"
    by (simp add: UseInviteCode_cases ValidateInviteCode_def GetInviteCodeByCode_def
        First_by_code_def live_by_code_def CanBeUsed_def IsActive_def IsExhausted_def)
next
  fix ic
  assume "live_by_code code db = Some ic \<and> ic_Status ic = InviteCodeStatusDisabled \<and>
               ic_UsedCount ic = 0 \<and> 1 \<le> ic_MaxUses ic"
  with assms show "UseInviteCode e code userID ip ua db = (Inl ErrNotActive, db)"
    by (simp add: UseInviteCode_cases ValidateInviteCode_def GetInviteCodeByCode_def
        First_by_code_def live_by_code_def CanBeUsed_def IsActive_def IsExhausted_def
        InviteCodeStatusDisabled_def InviteCodeStatusActive_def)
qed

text \<open>
  The scenario itself: the single-use code of the example is created, disabled by a
  status update, and then redeemed.
\<close>

theorem redemption_error_selection_witness:
  "\<not> get_err no_faults \<and>
   live_by_code ex_code_string ex_disabled = Some (ex_code\<lparr>ic_Status := ''disabled''\<rparr>) \<and>
   UseInviteCode no_faults ex_code_string 9 ''10.0.0.1'' ''curl'' ex_disabled
     = (Inl ErrNotActive, ex_disabled) \<and>
   map ic_UsedCount (invite_codes ex_disabled) = [0]"
proof -
  have g: "\<not> get_err no_faults" by (simp add: no_faults_def)
  have l: "live_by_code ex_code_string ex_disabled = Some (ex_code\<lparr>ic_Status := ''disabled''\<rparr>)"
    by (simp add: live_by_code_def ex_disabled_eq ex_db_def ex_code_def)
  have p: "ic_Status (ex_code\<lparr>ic_Status := ''disabled''\<rparr>) = InviteCodeStatusDisabled \<and>
           ic_UsedCount (ex_code\<lparr>ic_Status := ''disabled''\<rparr>) = 0 \<and>
           1 \<le> ic_MaxUses (ex_code\<lparr>ic_Status := ''disabled''\<rparr>)"
    by (simp add: ex_code_def InviteCodeStatusDisabled_def)
  have c: "map ic_UsedCount (invite_codes ex_disabled) = [0]"
    by (simp add: ex_disabled_eq ex_db_def ex_code_def)
  from redemption_error_selection [OF g, where db = ex_disabled and code = ex_code_string
      and userID = 9 and ip = "''10.0.0.1''" and ua = "''curl''"] l p
  have "UseInviteCode no_faults ex_code_string 9 ''10.0.0.1'' ''curl'' ex_disabled
          = (Inl ErrNotActive, ex_disabled)"
    by blast
  with g l c show ?thesis by blast
qed


section \<open>Registration with an invite code\<close>

lemma UseInviteCode_users:
  "users (snd (UseInviteCode e code uid ip ua db)) = users db"
  "users_seq (snd (UseInviteCode e code uid ip ua db)) = users_seq db"
  by (simp_all add: UseInviteCode_cases UseInviteCode_tx_cases split: sum.splits)

lemma ex_validate: "ValidateInviteCode no_faults ex_code_string ex_db = Inr ex_code"
  by (simp add: ValidateInviteCode_def GetInviteCodeByCode_def First_by_code_def no_faults_def
      ex_db_def ex_code_def CanBeUsed_def IsActive_def IsDeleted_def InviteCodeStatusActive_def)

lemma ex_used_eq:
  "ex_used = ex_db\<lparr>invite_codes := [ex_code\<lparr>ic_UsedCount := 1, ic_Status := ''used''\<rparr>],
      invite_code_usages := [\<lparr>iu_ID = 1, iu_InviteCodeID = 1, iu_UsedByID = 9, iu_UsedAt = 0,
         iu_IPAddress = ''10.0.0.1'', iu_UserAgent = ''curl''\<rparr>],
      invite_code_usages_seq := 2\<rparr>"
  by (simp add: ex_used_def UseInviteCode_cases UseInviteCode_tx_cases ValidateInviteCode_def
      GetInviteCodeByCode_def First_by_code_def no_faults_def ex_db_def ex_code_def CanBeUsed_def
      IsActive_def IsDeleted_def InviteCodeStatusActive_def InviteCodeStatusUsed_def redeemed_def
      save_row_def)

text \<open>
  C10. When \<open>Register\<close> is given a non-empty invite code and the validation of the
  code fails (whatever the reason: not found, exhausted, not active, or the lookup
  failing), it returns the error at once and the database is the one it started
  from: no user row, no ledger row, and the invite code as it was.
\<close>

theorem Register_rejects_invalid_code:
  assumes "rr_InviteCode req \<noteq> []"
    and "ValidateInviteCode (validate_env re) (rr_InviteCode req) db = Inl err"
  shows "Register re req db = (Inl (ErrInvalidInviteCode err), db)"
  using assms by (simp add: Register_def)

theorem Register_rejects_invalid_code_witness:
  "rr_InviteCode ex_req \<noteq> [] \<and>
   ValidateInviteCode (validate_env ex_reg_env) (rr_InviteCode ex_req) ex_used
     = Inl ErrMaxUsesReached \<and>
   Register ex_reg_env ex_req ex_used = (Inl (ErrInvalidInviteCode ErrMaxUsesReached), ex_used)"
proof -
  have a: "rr_InviteCode ex_req \<noteq> []"
    by (simp add: ex_req_def ex_code_string_def)
  have b: "ValidateInviteCode (validate_env ex_reg_env) (rr_InviteCode ex_req) ex_used
             = Inl ErrMaxUsesReached"
    by (simp add: ex_used_eq ValidateInviteCode_def GetInviteCodeByCode_def First_by_code_def
        no_faults_def ex_db_def ex_code_def ex_req_def ex_reg_env_def CanBeUsed_def IsActive_def
        IsExhausted_def InviteCodeStatusActive_def)
  from Register_rejects_invalid_code [OF a b] a b show ?thesis by simp
qed

text \<open>
  C5. When \<open>Register\<close> is given a non-empty invite code that passes the validation,
  the address is free, and hashing, the user insert and the token all succeed, then
  it returns success whatever the redemption does afterwards. The user row it has
  inserted carries the key of the code and the code string. The database it leaves
  is the one after the user insert, with the redemption applied to it; when the
  redemption fails, that is exactly the database after the user insert: the user
  stays and the failure is not reported.
\<close>

theorem Register_survives_failed_redemption:
  assumes "rr_InviteCode req \<noteq> []"
    and "ValidateInviteCode (validate_env re) (rr_InviteCode req) db = Inr ic"
    and "GetUserByEmail (user_get_err re) (rr_Email req) db = None"
    and "hashed re = Some h"
    and "\<not> user_create_err re" and "rr_Email req \<notin> set (map u_Email (users db))"
    and "token re = Some t"
  shows "\<exists>created db'.
           Register re req db = (Inr (created, t), db') \<and>
           created \<in> set (users db') \<and>
           u_Email created = rr_Email req \<and>
           u_InviteCodeID created = Some (ic_ID ic) \<and>
           u_InviteCodeUsed created = Some (rr_InviteCode req) \<and>
           db' = snd (UseInviteCode (use_env re) (rr_InviteCode req) (u_ID created)
                        ''unknown'' ''unknown'' (with_user created db)) \<and>
           (\<forall>err. fst (UseInviteCode (use_env re) (rr_InviteCode req) (u_ID created)
                         ''unknown'' ''unknown'' (with_user created db)) = Inl err
                  \<longrightarrow> db' = with_user created db)"
proof -
  have c: "ic_Code ic = rr_InviteCode req"
    using ValidateInviteCode_Inr(2) [OF assms(2)]
    by (auto simp: live_by_code_def find_Some_iff)
  define user where "user = \<lparr>u_ID = users_seq db, u_Email = rr_Email req,
      u_Name = derived_name re, u_Username = derived_username re, u_Password = h,
      u_Provider = ProviderLocal, u_Status = UserStatusActive, u_Role = UserRoleUser,
      u_InviteCodeID = Some (ic_ID ic), u_InviteCodeUsed = Some (ic_Code ic),
      u_DeletedAt = False\<rparr>"
  define db' where "db' = snd (UseInviteCode (use_env re) (rr_InviteCode req) (u_ID user)
                        ''unknown'' ''unknown'' (with_user user db))"
  have r: "Register re req db = (Inr (user, t), db')"
    using assms c
    by (simp add: Register_def CreateUser_def Let_def user_def db'_def with_user_def
        ProviderLocal_def UserStatusActive_def UserRoleUser_def)
  have u: "user \<in> set (users db')"
    unfolding db'_def by (simp add: UseInviteCode_users with_user_def)
  have f: "\<forall>err. fst (UseInviteCode (use_env re) (rr_InviteCode req) (u_ID user)
                         ''unknown'' ''unknown'' (with_user user db)) = Inl err
                  \<longrightarrow> db' = with_user user db"
    unfolding db'_def
    by (metis UseInviteCode_Inl prod.collapse)
  have p: "u_Email user = rr_Email req \<and> u_InviteCodeID user = Some (ic_ID ic) \<and>
           u_InviteCodeUsed user = Some (rr_InviteCode req)"
    using c by (simp add: user_def)
  from r u f p db'_def show ?thesis by blast
qed

text \<open>
  In the example the commit of the redemption fails: the registration succeeds, the
  new user is there with both fields set, and the code and the ledger are untouched.
\<close>

theorem Register_survives_failed_redemption_witness:
  "rr_InviteCode ex_req \<noteq> [] \<and>
   ValidateInviteCode (validate_env ex_reg_env) (rr_InviteCode ex_req) ex_db = Inr ex_code \<and>
   commit_err (use_env ex_reg_env) \<and>
   Register ex_reg_env ex_req ex_db = (Inr (ex_new_user, ''jwt''), with_user ex_new_user ex_db)"
proof -
  have a: "rr_InviteCode ex_req \<noteq> []"
    by (simp add: ex_req_def ex_code_string_def)
  have b: "ValidateInviteCode (validate_env ex_reg_env) (rr_InviteCode ex_req) ex_db = Inr ex_code"
    using ex_validate by (simp add: ex_reg_env_def ex_req_def)
  have c: "GetUserByEmail (user_get_err ex_reg_env) (rr_Email ex_req) ex_db = None"
    by (simp add: GetUserByEmail_def ex_reg_env_def ex_db_def)
  have d: "hashed ex_reg_env = Some ''$2a$10$abc''" "\<not> user_create_err ex_reg_env"
      "rr_Email ex_req \<notin> set (map u_Email (users ex_db))" "token ex_reg_env = Some ''jwt''"
    by (simp_all add: ex_reg_env_def ex_db_def)
  have e: "commit_err (use_env ex_reg_env)"
    by (simp add: ex_reg_env_def)
  from Register_survives_failed_redemption [OF a b c d] obtain created db' where
    r: "Register ex_reg_env ex_req ex_db = (Inr (created, ''jwt''), db')" by blast
  have "Register ex_reg_env ex_req ex_db = (Inr (ex_new_user, ''jwt''), with_user ex_new_user ex_db)"
    using r
    by (simp add: Register_def ex_validate ex_reg_env_def ex_req_def GetUserByEmail_def
        CreateUser_def ex_db_def ex_new_user_def ex_code_def with_user_def Let_def
        UseInviteCode_cases UseInviteCode_tx_cases ex_code_string_def no_faults_def
        ValidateInviteCode_def GetInviteCodeByCode_def First_by_code_def CanBeUsed_def
        IsActive_def IsDeleted_def InviteCodeStatusActive_def ProviderLocal_def
        UserStatusActive_def UserRoleUser_def)
  with a b e show ?thesis by blast
qed


section \<open>Code generation\<close>

lemma hi_nibble: "unat (drop_bit 4 (v :: 8 word)) < 16"
proof -
  have b: "unat v < 256" using unsigned_less [of v] by simp
  have "unat (drop_bit 4 v) = drop_bit 4 (unat v)" by (rule unat_drop_bit_eq)
  also have "\<dots> = unat v div 16" by (simp add: drop_bit_eq_div)
  finally show ?thesis using b by simp
qed

lemma lo_nibble: "unat ((v :: 8 word) AND 15) < 16"
proof -
  have "v AND 15 = take_bit 4 v"
    by (simp add: take_bit_eq_mask mask_eq_exp_minus_1)
  then have "unat (v AND 15) = take_bit 4 (unat v)"
    by (simp add: unsigned_take_bit_eq)
  also have "\<dots> < 2 ^ 4"
    by (rule take_bit_nat_less_exp)
  finally show ?thesis by simp
qed

lemma length_EncodeToString: "length (EncodeToString bs) = 2 * length bs"
  by (induction bs) simp_all

lemma set_EncodeToString: "set (EncodeToString bs) \<subseteq> set hextable"
proof (induction bs)
  case Nil
  show ?case by simp
next
  case (Cons v vs)
  have "length hextable = 16" by (simp add: hextable_def)
  with hi_nibble [of v] lo_nibble [of v]
  have "hextable ! unat (drop_bit 4 v) \<in> set hextable" "hextable ! unat (v AND 15) \<in> set hextable"
    by simp_all
  with Cons show ?case by simp
qed

lemma length_bytes_of: "length (bytes_of w) = 16"
  by (simp add: bytes_of_def)

lemma hex_zero: "EncodeToString (bytes_of 0) = ex_code_string"
  by (simp add: bytes_of_def hextable_def upt_rec ex_code_string_def)

lemma hex_one: "EncodeToString (bytes_of 1) = ''00000000000000000000000000000001''"
  by (simp add: bytes_of_def hextable_def upt_rec)

lemma GenerateInviteCode_db: "snd (GenerateInviteCode draws db) = db"
  by (induction draws) (auto simp: Let_def split: option.splits sum.splits)

lemma GenerateInviteCode_Inr:
  "GenerateInviteCode draws db = (Some (Inr code), db') \<Longrightarrow>
     \<exists>d \<in> set draws. \<exists>w. rnd d = Some w \<and> code = EncodeToString (bytes_of w) \<and>
        (\<not> lookup_err d \<longrightarrow> live_by_code code db = None)"
proof (induction draws)
  case Nil
  then show ?case by simp
next
  case (Cons d ds)
  then show ?case
    by (auto simp: Let_def First_by_code_def live_by_code_def
        split: option.splits sum.splits if_splits)
qed

lemma GenerateInviteCode_skip:
  "\<forall>c \<in> set cs. collides db c \<Longrightarrow> GenerateInviteCode (cs @ ds) db = GenerateInviteCode ds db"
  by (induction cs) (auto simp: collides_def First_by_code_def live_by_code_def split: option.splits)

lemma GenerateInviteCode_fresh:
  assumes "rnd d = Some w"
    and "lookup_err d \<or> live_by_code (EncodeToString (bytes_of w)) db = None"
  shows "GenerateInviteCode (d # ds) db = (Some (Inr (EncodeToString (bytes_of w))), db)"
  using assms by (auto simp: First_by_code_def live_by_code_def Let_def)

lemma live_by_code_None_if_absent:
  "code \<notin> set (map ic_Code (invite_codes db)) \<Longrightarrow> live_by_code code db = None"
  by (auto simp: live_by_code_def find_None_iff)

lemma ex_deleted_eq: "ex_deleted = ex_db\<lparr>invite_codes := [ex_code\<lparr>ic_DeletedAt := True\<rparr>]\<rparr>"
  by (simp add: ex_deleted_def DeleteInviteCode_def Delete_by_id_def no_faults_def ex_db_def ex_code_def)

text \<open>
  C7, as stated, fails. Generation writes nothing, so when the random source returns
  the same sixteen bytes twice, two generations in a row return the same code: here
  on the empty database. And the existence query does not see soft-deleted rows: in
  the example the code has been soft-deleted, the same bytes are drawn again, and the
  generated code is one that is stored already.
\<close>

theorem GenerateInviteCode_stored_code:
  "GenerateInviteCode [ex_draw] empty_db = (Some (Inr ex_code_string), empty_db) \<and>
   GenerateInviteCode [ex_draw] (snd (GenerateInviteCode [ex_draw] empty_db))
     = (Some (Inr ex_code_string), empty_db) \<and>
   GenerateInviteCode [ex_draw] ex_deleted = (Some (Inr ex_code_string), ex_deleted) \<and>
   ex_code_string \<in> set (map ic_Code (invite_codes ex_deleted))"
  by (simp add: ex_deleted_eq ex_db_def ex_code_def ex_draw_def First_by_code_def empty_db_def
      ex_code_string_def bytes_of_def hextable_def upt_rec)

text \<open>
  C7, amended. A code that \<open>GenerateInviteCode\<close> returns is 32 characters long, all
  of them lowercase hexadecimal digits; it is the encoding of the sixteen bytes of
  one of the draws, and when the existence query of that draw ran without error, no
  live (not soft-deleted) row has this code. The database is unchanged.
\<close>

theorem GenerateInviteCode_result:
  assumes "GenerateInviteCode draws db = (Some (Inr code), db')"
  shows "length code = 32 \<and> set code \<subseteq> set ''0123456789abcdef'' \<and>
         (\<exists>d \<in> set draws. \<exists>w. rnd d = Some w \<and> code = EncodeToString (bytes_of w) \<and>
            (\<not> lookup_err d \<longrightarrow>
               (\<forall>r \<in> set (invite_codes db). \<not> ic_DeletedAt r \<longrightarrow> ic_Code r \<noteq> code))) \<and>
         db' = db"
proof -
  from GenerateInviteCode_Inr [OF assms] obtain d w where
    d: "d \<in> set draws" "rnd d = Some w" "code = EncodeToString (bytes_of w)"
       "\<not> lookup_err d \<longrightarrow> live_by_code code db = None"
    by blast
  have l: "length code = 32"
    using d(3) by (simp add: length_EncodeToString length_bytes_of)
  have s: "set code \<subseteq> set ''0123456789abcdef''"
    using d(3) set_EncodeToString [of "bytes_of w"] by (simp add: hextable_def)
  have f: "\<not> lookup_err d \<longrightarrow>
             (\<forall>r \<in> set (invite_codes db). \<not> ic_DeletedAt r \<longrightarrow> ic_Code r \<noteq> code)"
    using d(4) by (auto simp: live_by_code_def find_None_iff)
  have u: "db' = db"
    using GenerateInviteCode_db [of draws db] assms by simp
  from l s d(1,2,3) f u show ?thesis by blast
qed

theorem GenerateInviteCode_result_witness:
  "GenerateInviteCode [ex_draw, ex_draw1] ex_db
     = (Some (Inr ''00000000000000000000000000000001''), ex_db) \<and>
   length ''00000000000000000000000000000001'' = 32 \<and>
   set ''00000000000000000000000000000001'' \<subseteq> set ''0123456789abcdef''"
proof -
  have g: "GenerateInviteCode [ex_draw, ex_draw1] ex_db
     = (Some (Inr ''00000000000000000000000000000001''), ex_db)"
    by (simp add: ex_draw_def ex_draw1_def hex_one hex_zero First_by_code_def ex_db_def ex_code_def
        ex_code_string_def)
  from GenerateInviteCode_result [OF g] g show ?thesis by blast
qed


section \<open>Creation\<close>

lemma CreateInviteCode_Inr:
  assumes "CreateInviteCode e draws uid req db = (Some (Inr ic), db')"
  shows "\<exists>code. GenerateInviteCode draws db = (Some (Inr code), db) \<and>
           code \<notin> set (map ic_Code (invite_codes db)) \<and>
           ic = \<lparr>ic_ID = invite_codes_seq db, ic_Code = code, ic_CreatedByID = uid,
                  ic_Status = InviteCodeStatusActive,
                  ic_MaxUses = (if req_MaxUses req = 0 then 10 else req_MaxUses req),
                  ic_UsedCount = 0, ic_Description = req_Description req,
                  ic_Metadata = [], ic_DeletedAt = False\<rparr> \<and>
           db' = db\<lparr>invite_codes := invite_codes db @ [ic],
                    invite_codes_seq := invite_codes_seq db + 1\<rparr>"
proof -
  obtain g db1 where g: "GenerateInviteCode draws db = (g, db1)"
    by (cases "GenerateInviteCode draws db")
  with GenerateInviteCode_db [of draws db] have d: "db1 = db" by simp
  show ?thesis
    using assms g d
    by (auto simp: CreateInviteCode_def Create_invite_code_def Let_def InviteCodeStatusActive_def
        split: option.splits sum.splits if_splits)
qed

lemma CreateInviteCode_other:
  assumes "CreateInviteCode e draws uid req db = (r, db')" and "\<forall>ic. r \<noteq> Some (Inr ic)"
  shows "db' = db"
proof -
  obtain g db1 where g: "GenerateInviteCode draws db = (g, db1)"
    by (cases "GenerateInviteCode draws db")
  with GenerateInviteCode_db [of draws db] have d: "db1 = db" by simp
  show ?thesis
    using assms g d
    by (auto simp: CreateInviteCode_def Create_invite_code_def Let_def
        split: option.splits sum.splits if_splits)
qed

text \<open>
  C6. A creation request whose \<open>MaxUses\<close> is within 1..100 and whose description has
  at most 255 characters persists a new row with status active and no use, as soon
  as one of the draws gives a code that no row has yet (after any number of draws
  that collide) and the insert itself does not fail. A request outside these bounds
  is answered with the binding error and nothing is persisted. And whenever the
  handler returns a code, the request was within the bounds and the code is a stored
  row with status active and no use.
\<close>

theorem create_validates_and_persists:
  "(1 \<le> req_MaxUses req \<and> req_MaxUses req \<le> 100 \<and> length (req_Description req) \<le> 255 \<and>
    (\<forall>c \<in> set cs. collides db c) \<and> rnd d = Some w \<and>
    EncodeToString (bytes_of w) \<notin> set (map ic_Code (invite_codes db)) \<and> \<not> create_err e
    \<longrightarrow> (\<exists>ic. Handler_CreateInviteCode e (cs @ d # ds) user req db
                 = (Some (Inr ic), db\<lparr>invite_codes := invite_codes db @ [ic],
                                       invite_codes_seq := invite_codes_seq db + 1\<rparr>) \<and>
               ic_Status ic = InviteCodeStatusActive \<and> ic_UsedCount ic = 0 \<and>
               ic_MaxUses ic = req_MaxUses req \<and> ic_Description ic = req_Description req \<and>
               ic_CreatedByID ic = u_ID user \<and> \<not> ic_DeletedAt ic))
   \<and> (\<not> (1 \<le> req_MaxUses req \<and> req_MaxUses req \<le> 100 \<and> length (req_Description req) \<le> 255)
    \<longrightarrow> Handler_CreateInviteCode e draws user req db = (Some (Inl ErrBinding), db))
   \<and> (\<forall>ic db'. Handler_CreateInviteCode e draws user req db = (Some (Inr ic), db')
    \<longrightarrow> 1 \<le> req_MaxUses req \<and> req_MaxUses req \<le> 100 \<and> length (req_Description req) \<le> 255 \<and>
        ic \<in> set (invite_codes db') \<and> ic_Status ic = InviteCodeStatusActive \<and> ic_UsedCount ic = 0)"
proof -
  let ?valid = "1 \<le> req_MaxUses req \<and> req_MaxUses req \<le> 100 \<and> length (req_Description req) \<le> 255"
  have accepted: "\<exists>ic. Handler_CreateInviteCode e (cs @ d # ds) user req db
                 = (Some (Inr ic), db\<lparr>invite_codes := invite_codes db @ [ic],
                                       invite_codes_seq := invite_codes_seq db + 1\<rparr>) \<and>
               ic_Status ic = InviteCodeStatusActive \<and> ic_UsedCount ic = 0 \<and>
               ic_MaxUses ic = req_MaxUses req \<and> ic_Description ic = req_Description req \<and>
               ic_CreatedByID ic = u_ID user \<and> \<not> ic_DeletedAt ic"
    if a: "?valid \<and> (\<forall>c \<in> set cs. collides db c) \<and> rnd d = Some w \<and>
      EncodeToString (bytes_of w) \<notin> set (map ic_Code (invite_codes db)) \<and> \<not> create_err e"
  proof -
    from a have "GenerateInviteCode (cs @ d # ds) db = GenerateInviteCode (d # ds) db"
      by (simp add: GenerateInviteCode_skip)
    also have "\<dots> = (Some (Inr (EncodeToString (bytes_of w))), db)"
      using a by (intro GenerateInviteCode_fresh) (simp_all add: live_by_code_None_if_absent)
    finally have g: "GenerateInviteCode (cs @ d # ds) db
                       = (Some (Inr (EncodeToString (bytes_of w))), db)" .
    show ?thesis
      using a g
      by (simp add: Handler_CreateInviteCode_def bind_CreateInviteCodeRequest_def
          CreateInviteCode_def Create_invite_code_def Let_def InviteCodeStatusActive_def
          del: GenerateInviteCode.simps)
  qed
  have rejected: "Handler_CreateInviteCode e draws user req db = (Some (Inl ErrBinding), db)"
    if "\<not> ?valid"
    using that by (simp add: Handler_CreateInviteCode_def bind_CreateInviteCodeRequest_def)
  have only: "?valid \<and> ic \<in> set (invite_codes db') \<and> ic_Status ic = InviteCodeStatusActive \<and>
              ic_UsedCount ic = 0"
    if h: "Handler_CreateInviteCode e draws user req db = (Some (Inr ic), db')" for ic db'
  proof -
    from h have b: "bind_CreateInviteCodeRequest req"
      by (auto simp: Handler_CreateInviteCode_def split: if_splits)
    with h have "CreateInviteCode e draws (u_ID user) req db = (Some (Inr ic), db')"
      by (simp add: Handler_CreateInviteCode_def)
    from CreateInviteCode_Inr [OF this] b show ?thesis
      by (auto simp: bind_CreateInviteCodeRequest_def)
  qed
  from accepted rejected only show ?thesis by blast
qed

theorem create_validates_and_persists_witness:
  "collides ex_db ex_draw \<and> rnd ex_draw1 = Some 1 \<and>
   EncodeToString (bytes_of 1) \<notin> set (map ic_Code (invite_codes ex_db)) \<and>
   \<not> create_err no_faults \<and>
   (\<exists>ic. Handler_CreateInviteCode no_faults ([ex_draw] @ ex_draw1 # []) ex_user ex_team_req ex_db
            = (Some (Inr ic), ex_db\<lparr>invite_codes := invite_codes ex_db @ [ic],
                                     invite_codes_seq := invite_codes_seq ex_db + 1\<rparr>) \<and>
          ic_Status ic = InviteCodeStatusActive \<and> ic_UsedCount ic = 0 \<and>
          ic_MaxUses ic = req_MaxUses ex_team_req) \<and>
   Handler_CreateInviteCode no_faults [ex_draw1] ex_user
      \<lparr>req_MaxUses = 101, req_Description = ''too many''\<rparr> ex_db = (Some (Inl ErrBinding), ex_db) \<and>
   Handler_CreateInviteCode no_faults [ex_draw1] ex_user
      \<lparr>req_MaxUses = 0, req_Description = ''none''\<rparr> ex_db = (Some (Inl ErrBinding), ex_db) \<and>
   Handler_CreateInviteCode no_faults [ex_draw1] ex_user
      \<lparr>req_MaxUses = 5, req_Description = replicate 256 CHR ''a''\<rparr> ex_db
      = (Some (Inl ErrBinding), ex_db)"
proof -
  have c0: "collides ex_db ex_draw"
    by (simp add: collides_def ex_draw_def hex_zero live_by_code_def ex_db_def ex_code_def)
  then have c: "\<forall>c \<in> set [ex_draw]. collides ex_db c"
    by simp
  have d: "rnd ex_draw1 = Some 1"
    by (simp add: ex_draw1_def)
  have f: "EncodeToString (bytes_of 1) \<notin> set (map ic_Code (invite_codes ex_db))"
    by (simp add: hex_one ex_db_def ex_code_def ex_code_string_def)
  have n: "\<not> create_err no_faults"
    by (simp add: no_faults_def)
  have v: "1 \<le> req_MaxUses ex_team_req \<and> req_MaxUses ex_team_req \<le> 100 \<and>
           length (req_Description ex_team_req) \<le> 255"
    by (simp add: ex_team_req_def)
  from create_validates_and_persists [where req = ex_team_req and cs = "[ex_draw]" and db = ex_db
      and d = ex_draw1 and w = 1 and e = no_faults and ds = "[]" and user = ex_user
      and draws = "[]", THEN conjunct1] v c d f n
  have a: "\<exists>ic. Handler_CreateInviteCode no_faults ([ex_draw] @ ex_draw1 # []) ex_user ex_team_req ex_db
            = (Some (Inr ic), ex_db\<lparr>invite_codes := invite_codes ex_db @ [ic],
                                     invite_codes_seq := invite_codes_seq ex_db + 1\<rparr>) \<and>
          ic_Status ic = InviteCodeStatusActive \<and> ic_UsedCount ic = 0 \<and>
          ic_MaxUses ic = req_MaxUses ex_team_req"
    by blast
  have r1: "Handler_CreateInviteCode no_faults [ex_draw1] ex_user
      \<lparr>req_MaxUses = 101, req_Description = ''too many''\<rparr> ex_db = (Some (Inl ErrBinding), ex_db)"
    using create_validates_and_persists [where req = "\<lparr>req_MaxUses = 101, req_Description = ''too many''\<rparr>"
        and e = no_faults and draws = "[ex_draw1]" and user = ex_user and db = ex_db]
    by simp
  have r2: "Handler_CreateInviteCode no_faults [ex_draw1] ex_user
      \<lparr>req_MaxUses = 0, req_Description = ''none''\<rparr> ex_db = (Some (Inl ErrBinding), ex_db)"
    using create_validates_and_persists [where req = "\<lparr>req_MaxUses = 0, req_Description = ''none''\<rparr>"
        and e = no_faults and draws = "[ex_draw1]" and user = ex_user and db = ex_db]
    by simp
  have r3: "Handler_CreateInviteCode no_faults [ex_draw1] ex_user
      \<lparr>req_MaxUses = 5, req_Description = replicate 256 CHR ''a''\<rparr> ex_db
      = (Some (Inl ErrBinding), ex_db)"
    using create_validates_and_persists [where
        req = "\<lparr>req_MaxUses = 5, req_Description = replicate 256 CHR ''a''\<rparr>"
        and e = no_faults and draws = "[ex_draw1]" and user = ex_user and db = ex_db]
    by simp
  from c0 d f n a r1 r2 r3 show ?thesis by blast
qed


section \<open>What the operations do to the tables\<close>

lemma save_row_present:
  "ic \<in> set rows \<Longrightarrow> ic_ID ic' = ic_ID ic \<Longrightarrow>
     save_row ic' rows = map (\<lambda>r. if ic_ID r = ic_ID ic then ic' else r) rows"
  by (auto simp: save_row_def list_ex_iff)

lemma First_by_id_Inr:
  "First_by_id err i db = Inr ic \<Longrightarrow> ic \<in> set (invite_codes db) \<and> ic_ID ic = i \<and> \<not> ic_DeletedAt ic"
  by (auto simp: First_by_id_def find_Some_iff split: if_splits option.splits)

lemma ic_ID_redeemed: "ic_ID (redeemed ic0) = ic_ID ic0"
  by (simp add: redeemed_def)

lemma UseInviteCode_effect:
  "snd (UseInviteCode e code uid ip ua db) = db \<or>
   (\<exists>ic0 usage. ic0 \<in> set (invite_codes db) \<and> ic_UsedCount ic0 < ic_MaxUses ic0 \<and>
      ic_Status ic0 = InviteCodeStatusActive \<and> iu_InviteCodeID usage = ic_ID ic0 \<and>
      snd (UseInviteCode e code uid ip ua db) =
        db\<lparr>invite_codes := map (\<lambda>r. if ic_ID r = ic_ID ic0 then redeemed ic0 else r) (invite_codes db),
           invite_code_usages := invite_code_usages db @ [usage],
           invite_code_usages_seq := invite_code_usages_seq db + 1\<rparr>)"
proof (cases "UseInviteCode e code uid ip ua db")
  case (Pair r db')
  show ?thesis
  proof (cases r)
    case (Inl err)
    with Pair show ?thesis by (simp add: UseInviteCode_Inl)
  next
    case (Inr ic)
    with Pair have u: "UseInviteCode e code uid ip ua db = (Inr ic, db')" by simp
    from UseInviteCode_Inr [OF u] obtain ic0 where
      v: "ValidateInviteCode e code db = Inr ic0" and r: "ic = redeemed ic0" and
      d: "db' = db\<lparr>invite_codes := save_row ic (invite_codes db),
              invite_code_usages := invite_code_usages db @
                 [\<lparr>iu_ID = invite_code_usages_seq db, iu_InviteCodeID = ic_ID ic0,
                   iu_UsedByID = uid, iu_UsedAt = now e, iu_IPAddress = ip,
                   iu_UserAgent = ua\<rparr>],
              invite_code_usages_seq := invite_code_usages_seq db + 1\<rparr>"
      by blast
    from ValidateInviteCode_Inr [OF v] have
      m: "ic0 \<in> set (invite_codes db)" and c: "ic_UsedCount ic0 < ic_MaxUses ic0"
      and s: "ic_Status ic0 = InviteCodeStatusActive"
      by (simp_all add: live_by_code_mem)
    have "ic_ID (redeemed ic0) = ic_ID ic0" by (simp add: redeemed_def)
    from save_row_present [OF m this] r have
      "save_row ic (invite_codes db) =
         map (\<lambda>r. if ic_ID r = ic_ID ic0 then redeemed ic0 else r) (invite_codes db)" by simp
    with d m c s u show ?thesis
      by (intro disjI2 exI [of _ ic0]
            exI [of _ "\<lparr>iu_ID = invite_code_usages_seq db, iu_InviteCodeID = ic_ID ic0,
                   iu_UsedByID = uid, iu_UsedAt = now e, iu_IPAddress = ip,
                   iu_UserAgent = ua\<rparr>"]) simp
  qed
qed

lemma UpdateInviteCodeStatus_effect:
  "snd (UpdateInviteCodeStatus e i status db) = db \<or>
   (\<exists>ic. ic \<in> set (invite_codes db) \<and>
      snd (UpdateInviteCodeStatus e i status db) =
        db\<lparr>invite_codes := map (\<lambda>r. if ic_ID r = ic_ID ic then ic\<lparr>ic_Status := status\<rparr> else r)
                                (invite_codes db)\<rparr>)"
proof (cases "First_by_id (get_err e) i db")
  case (Inl err)
  then show ?thesis by (simp add: UpdateInviteCodeStatus_def split: gorm_error.splits)
next
  case (Inr ic)
  from First_by_id_Inr [OF Inr] have m: "ic \<in> set (invite_codes db)" by simp
  from save_row_present [OF m, of "ic\<lparr>ic_Status := status\<rparr>"] Inr m show ?thesis
    by (cases "save_err e") (auto simp: UpdateInviteCodeStatus_def Save_def Let_def)
qed

lemma UpdateInviteCodeStatus_cases:
  "UpdateInviteCodeStatus e i status db = (r, db') \<Longrightarrow>
     (\<exists>err. r = Inl err \<and> db' = db) \<or>
     (\<exists>ic. First_by_id False i db = Inr ic \<and> r = Inr (ic\<lparr>ic_Status := status\<rparr>) \<and>
        db' = db\<lparr>invite_codes := save_row (ic\<lparr>ic_Status := status\<rparr>) (invite_codes db)\<rparr>)"
  by (auto simp: UpdateInviteCodeStatus_def Save_def Let_def First_by_id_def
      split: sum.splits gorm_error.splits option.splits if_splits)

lemma DeleteInviteCode_effect:
  "snd (DeleteInviteCode e i db) = db \<or>
   snd (DeleteInviteCode e i db) =
     db\<lparr>invite_codes := map (\<lambda>r. if ic_ID r = i \<and> \<not> ic_DeletedAt r
                                   then r\<lparr>ic_DeletedAt := True\<rparr> else r) (invite_codes db)\<rparr>"
  by (simp add: DeleteInviteCode_def Delete_by_id_def)

lemma Handler_CreateInviteCode_effect:
  "snd (Handler_CreateInviteCode e draws user req db) = db \<or>
   (\<exists>ic. ic_ID ic = invite_codes_seq db \<and> ic_UsedCount ic = 0 \<and> 1 \<le> ic_MaxUses ic \<and>
      ic_Status ic = InviteCodeStatusActive \<and>
      snd (Handler_CreateInviteCode e draws user req db) =
        db\<lparr>invite_codes := invite_codes db @ [ic], invite_codes_seq := invite_codes_seq db + 1\<rparr>)"
proof (cases "bind_CreateInviteCodeRequest req")
  case False
  then show ?thesis by (simp add: Handler_CreateInviteCode_def)
next
  case True
  obtain r db' where c: "CreateInviteCode e draws (u_ID user) req db = (r, db')"
    by (cases "CreateInviteCode e draws (u_ID user) req db")
  show ?thesis
  proof (cases "\<exists>ic. r = Some (Inr ic)")
    case False
    with CreateInviteCode_other [OF c] True c show ?thesis
      by (simp add: Handler_CreateInviteCode_def)
  next
    case True
    then obtain ic where "r = Some (Inr ic)" by blast
    with c have "CreateInviteCode e draws (u_ID user) req db = (Some (Inr ic), db')" by simp
    from CreateInviteCode_Inr [OF this] \<open>bind_CreateInviteCodeRequest req\<close> c
    show ?thesis
      by (intro disjI2 exI [of _ ic])
         (auto simp: Handler_CreateInviteCode_def bind_CreateInviteCodeRequest_def)
  qed
qed

lemma Register_preserves:
  assumes "P db" and "\<And>u. P (with_user u db)"
    and "\<And>u code uid. P (snd (UseInviteCode (use_env re) code uid ''unknown'' ''unknown''
                                   (with_user u db)))"
  shows "P (snd (Register re req db))"
  using assms(1) assms(2) [unfolded with_user_def] assms(3) [unfolded with_user_def]
  by (simp add: Register_def CreateUser_def Let_def
      split: sum.splits option.splits if_splits)


section \<open>Status updates\<close>

lemma Handler_UpdateInviteCodeStatus_stores:
  assumes "Handler_UpdateInviteCodeStatus e1 e2 user i status db = (r, db')"
  shows "(\<forall>row \<in> set (invite_codes db').
            row \<in> set (invite_codes db) \<or> ic_Status row = ''active'' \<or> ic_Status row = ''disabled'')
       \<and> (\<forall>ic. r = Inr ic \<longrightarrow>
            ic_Status ic = status \<and> (status = ''active'' \<or> status = ''disabled'') \<and>
            ic \<in> set (invite_codes db'))
       \<and> (status \<noteq> ''active'' \<and> status \<noteq> ''disabled'' \<longrightarrow> r = Inl ErrBinding \<and> db' = db)
       \<and> used_keys db' \<subseteq> used_keys db"
proof (cases "bind_status status")
  case False
  with assms have "r = Inl ErrBinding" "db' = db"
    by (simp_all add: Handler_UpdateInviteCodeStatus_def)
  moreover from False have "status \<noteq> ''active'' \<and> status \<noteq> ''disabled'' \<or> status = []"
    by (auto simp: bind_status_def)
  ultimately show ?thesis by auto
next
  case True
  then have st: "status = ''active'' \<or> status = ''disabled''"
    by (simp add: bind_status_def)
  obtain r0 db0 where u0: "UpdateInviteCodeStatus e2 i status db = (r0, db0)"
    by (cases "UpdateInviteCodeStatus e2 i status db")
  from assms True u0 have "(\<exists>err. r = Inl err \<and> db' = db) \<or>
      (\<exists>err. r0 = Inl err \<and> r = Inl ErrInternalServerError \<and> db' = db0) \<or>
      (\<exists>ic. r0 = Inr ic \<and> r = r0 \<and> db' = db0)"
    by (auto simp: Handler_UpdateInviteCodeStatus_def split: sum.splits if_splits)
  with UpdateInviteCodeStatus_cases [OF u0]
  consider (failed) err where "r = Inl err" "db' = db"
    | (stored) ic where "First_by_id False i db = Inr ic" "r = Inr (ic\<lparr>ic_Status := status\<rparr>)"
          "db' = db\<lparr>invite_codes := save_row (ic\<lparr>ic_Status := status\<rparr>) (invite_codes db)\<rparr>"
    by blast
  then show ?thesis
  proof cases
    case failed
    with st show ?thesis by auto
  next
    case (stored ic)
    from First_by_id_Inr [OF stored(1)] have m: "ic \<in> set (invite_codes db)" by simp
    have rows: "invite_codes db' =
        map (\<lambda>r. if ic_ID r = ic_ID ic then ic\<lparr>ic_Status := status\<rparr> else r) (invite_codes db)"
      using stored(3) save_row_present [OF m, of "ic\<lparr>ic_Status := status\<rparr>"] by simp
    have a: "\<forall>row \<in> set (invite_codes db').
            row \<in> set (invite_codes db) \<or> ic_Status row = ''active'' \<or> ic_Status row = ''disabled''"
      using st by (auto simp: rows)
    have b: "\<forall>ic'. r = Inr ic' \<longrightarrow> ic_Status ic' = status \<and> ic' \<in> set (invite_codes db')"
      using stored(2) m by (force simp: rows)
    have c: "used_keys db' \<subseteq> used_keys db"
      using st by (auto simp: used_keys_def rows InviteCodeStatusUsed_def split: if_splits)
    from a b c st show ?thesis by auto
  qed
qed

lemma used_keys_create:
  "used_keys (snd (Handler_CreateInviteCode e draws user req db)) \<subseteq> used_keys db"
  using Handler_CreateInviteCode_effect [of e draws user req db]
  by (auto simp: used_keys_def InviteCodeStatusActive_def InviteCodeStatusUsed_def)

lemma used_keys_delete:
  "used_keys (snd (DeleteInviteCode e i db)) \<subseteq> used_keys db"
  using DeleteInviteCode_effect [of e i db]
  by (auto simp: used_keys_def split: if_splits)

lemma used_keys_redeem:
  assumes u: "UseInviteCode e code userID ip ua db = (Inr ic, db')"
  shows "(ic_Status ic = InviteCodeStatusUsed \<longleftrightarrow> ic_MaxUses ic \<le> ic_UsedCount ic)
       \<and> used_keys db' \<subseteq> used_keys db \<union> {k. k = ic_ID ic \<and> ic_MaxUses ic \<le> ic_UsedCount ic}"
proof -
  from UseInviteCode_Inr [OF u] obtain ic0 where
    v: "ValidateInviteCode e code db = Inr ic0" and r: "ic = redeemed ic0" and
    d: "invite_codes db' = save_row ic (invite_codes db)"
    by auto
  from ValidateInviteCode_Inr [OF v] have
    m: "ic0 \<in> set (invite_codes db)" and s: "ic_Status ic0 = InviteCodeStatusActive"
    by (simp_all add: live_by_code_mem)
  have st: "ic_Status ic = InviteCodeStatusUsed \<longleftrightarrow> ic_MaxUses ic \<le> ic_UsedCount ic"
    using r s by (auto simp: redeemed_def InviteCodeStatusActive_def InviteCodeStatusUsed_def)
  have i: "ic_ID ic = ic_ID ic0" using r by (simp add: ic_ID_redeemed)
  from save_row_present [OF m i] d have
    rows: "invite_codes db' = map (\<lambda>r. if ic_ID r = ic_ID ic0 then ic else r) (invite_codes db)"
    by simp
  have "used_keys db' \<subseteq> used_keys db \<union> {k. k = ic_ID ic \<and> ic_MaxUses ic \<le> ic_UsedCount ic}"
    using st i by (auto simp: used_keys_def rows split: if_splits)
  with st show ?thesis by blast
qed

text \<open>
  C9, as stated, fails: \<open>UpdateInviteCodeStatus\<close> stores the status it is given. In
  the example it is called with used on the fresh code, which has a use left, and
  the row is stored with status used.
\<close>

theorem UpdateInviteCodeStatus_stores_used:
  "UpdateInviteCodeStatus no_faults 1 ''used'' ex_db
     = (Inr (ex_code\<lparr>ic_Status := ''used''\<rparr>),
        ex_db\<lparr>invite_codes := [ex_code\<lparr>ic_Status := ''used''\<rparr>]\<rparr>) \<and>
   ic_UsedCount ex_code < ic_MaxUses ex_code"
  by (simp add: UpdateInviteCodeStatus_def First_by_id_def no_faults_def ex_db_def ex_code_def
      Save_def save_row_def Let_def)

text \<open>
  C9, amended. A status update that comes through the handler stores active or
  disabled and nothing else: every row it leaves was there before or has one of the
  two, a successful call returns the row with the requested status, which is one of
  the two, any other status is rejected by the binding with the database unchanged,
  and no key joins the rows whose status is used. Creation and soft delete add no
  key to them either. A successful redemption sets used exactly when the count has
  reached the cap, and then the only key it adds is that of the redeemed code.
\<close>

theorem status_used_only_by_redemption:
  "(\<forall>r db'. Handler_UpdateInviteCodeStatus e_get e_upd user i status db = (r, db') \<longrightarrow>
      (\<forall>row \<in> set (invite_codes db').
          row \<in> set (invite_codes db) \<or> ic_Status row = ''active'' \<or> ic_Status row = ''disabled'') \<and>
      (\<forall>ic. r = Inr ic \<longrightarrow>
          ic_Status ic = status \<and> (status = ''active'' \<or> status = ''disabled'') \<and>
          ic \<in> set (invite_codes db')) \<and>
      (status \<noteq> ''active'' \<and> status \<noteq> ''disabled'' \<longrightarrow> r = Inl ErrBinding \<and> db' = db) \<and>
      used_keys db' \<subseteq> used_keys db)
   \<and> used_keys (snd (Handler_CreateInviteCode e draws user req db)) \<subseteq> used_keys db
   \<and> used_keys (snd (DeleteInviteCode e i db)) \<subseteq> used_keys db
   \<and> (\<forall>ic db'. UseInviteCode e code userID ip ua db = (Inr ic, db') \<longrightarrow>
        (ic_Status ic = InviteCodeStatusUsed \<longleftrightarrow> ic_MaxUses ic \<le> ic_UsedCount ic) \<and>
        used_keys db' \<subseteq> used_keys db \<union> {k. k = ic_ID ic \<and> ic_MaxUses ic \<le> ic_UsedCount ic})"
  using Handler_UpdateInviteCodeStatus_stores [of e_get e_upd user i status db]
    used_keys_create [of e draws user req db] used_keys_delete [of e i db]
    used_keys_redeem [of e code userID ip ua db]
  by blast

theorem status_used_only_by_redemption_witness:
  "Handler_UpdateInviteCodeStatus no_faults no_faults ex_user 1 ''disabled'' ex_db
     = (Inr (ex_code\<lparr>ic_Status := ''disabled''\<rparr>), ex_disabled) \<and>
   ic_Status (ex_code\<lparr>ic_Status := ''disabled''\<rparr>) = ''disabled'' \<and>
   Handler_UpdateInviteCodeStatus no_faults no_faults ex_user 1 ''used'' ex_db
     = (Inl ErrBinding, ex_db) \<and>
   ''used'' \<noteq> ''active'' \<and> ''used'' \<noteq> ''disabled''"
proof -
  have h: "Handler_UpdateInviteCodeStatus no_faults no_faults ex_user 1 ''disabled'' ex_db
     = (Inr (ex_code\<lparr>ic_Status := ''disabled''\<rparr>), ex_disabled)"
    by (simp add: Handler_UpdateInviteCodeStatus_def bind_status_def GetInviteCodeByID_def
        First_by_id_def no_faults_def ex_db_def ex_code_def ex_user_def ex_disabled_eq
        UpdateInviteCodeStatus_def Save_def save_row_def Let_def)
  obtain r db' where b: "Handler_UpdateInviteCodeStatus no_faults no_faults ex_user 1 ''used'' ex_db
     = (r, db')" by (cases "Handler_UpdateInviteCodeStatus no_faults no_faults ex_user 1 ''used'' ex_db")
  have n: "''used'' \<noteq> ''active'' \<and> ''used'' \<noteq> ''disabled''" by simp
  from status_used_only_by_redemption [where e_get = no_faults and e_upd = no_faults and user = ex_user
      and i = 1 and status = "''used''" and db = ex_db] b n
  have "r = Inl ErrBinding \<and> db' = ex_db" by blast
  with b have u: "Handler_UpdateInviteCodeStatus no_faults no_faults ex_user 1 ''used'' ex_db
     = (Inl ErrBinding, ex_db)" by simp
  from status_used_only_by_redemption [where e_get = no_faults and e_upd = no_faults and user = ex_user
      and i = 1 and status = "''disabled''" and db = ex_db] h
  have "ic_Status (ex_code\<lparr>ic_Status := ''disabled''\<rparr>) = ''disabled''" by blast
  with h u n show ?thesis by blast
qed


section \<open>Invariants of the tables\<close>

text \<open>
  The three properties of \<open>consistent\<close> hold in the empty database and every
  operation keeps them.
\<close>

lemma consistent_empty: "consistent empty_db"
  by (simp add: consistent_def keys_ok_def bounds_ok_def ledger_complete_def empty_db_def)

lemma consistent_with_user: "consistent (with_user u db) = consistent db"
  by (simp add: consistent_def keys_ok_def bounds_ok_def ledger_complete_def usage_count_def with_user_def)

lemma keys_ok_rows:
  assumes "keys_ok db" and "\<And>r. ic_ID (f r) = ic_ID r"
  shows "keys_ok (db\<lparr>invite_codes := map f (invite_codes db)\<rparr>)"
  using assms(1) by (simp add: keys_ok_def comp_def assms(2))

lemma keys_ok_usage:
  assumes "keys_ok db" and "iu_InviteCodeID usage < invite_codes_seq db"
  shows "keys_ok (db\<lparr>invite_code_usages := invite_code_usages db @ [usage],
                     invite_code_usages_seq := n\<rparr>)"
  using assms by (simp add: keys_ok_def)

lemma consistent_redeem_step:
  assumes "consistent db" and "ic0 \<in> set (invite_codes db)" and "ic_UsedCount ic0 < ic_MaxUses ic0"
    and "iu_InviteCodeID usage = ic_ID ic0"
  shows "consistent (db\<lparr>invite_codes := map (\<lambda>r. if ic_ID r = ic_ID ic0 then redeemed ic0 else r)
                                       (invite_codes db),
                  invite_code_usages := invite_code_usages db @ [usage],
                  invite_code_usages_seq := n\<rparr>)"
proof -
  let ?f = "\<lambda>r. if ic_ID r = ic_ID ic0 then redeemed ic0 else r"
  let ?db = "db\<lparr>invite_codes := map ?f (invite_codes db),
                 invite_code_usages := invite_code_usages db @ [usage],
                 invite_code_usages_seq := n\<rparr>"
  have k: "keys_ok db" and b: "bounds_ok db" and l: "ledger_complete db"
    using assms(1) by (simp_all add: consistent_def)
  have id_f: "ic_ID (?f r) = ic_ID r" for r
    by (simp add: ic_ID_redeemed)
  have lt: "ic_ID ic0 < invite_codes_seq db"
    using k assms(2) by (simp add: keys_ok_def)
  have b0: "0 \<le> ic_UsedCount ic0"
    using b assms(2) by (simp add: bounds_ok_def)
  have l0: "int (usage_count db (ic_ID ic0)) = ic_UsedCount ic0"
    using l assms(2) by (simp add: ledger_complete_def)
  have c_red: "ic_UsedCount (redeemed ic0) = ic_UsedCount ic0 + 1"
    and m_red: "ic_MaxUses (redeemed ic0) = ic_MaxUses ic0"
    by (simp_all add: redeemed_def)
  have k1: "keys_ok (db\<lparr>invite_codes := map ?f (invite_codes db)\<rparr>)"
    by (rule keys_ok_rows [OF k]) (simp add: ic_ID_redeemed)
  from keys_ok_usage [OF k1, of usage n] lt assms(4) have "keys_ok ?db"
    by simp
  moreover have "bounds_ok ?db"
    unfolding bounds_ok_def
  proof
    fix ic assume "ic \<in> set (invite_codes ?db)"
    then obtain r where r: "r \<in> set (invite_codes db)" "ic = ?f r" by auto
    show "0 \<le> ic_UsedCount ic \<and> ic_UsedCount ic \<le> ic_MaxUses ic"
    proof (cases "ic_ID r = ic_ID ic0")
      case True
      with r b0 assms(3) show ?thesis by (simp add: c_red m_red)
    next
      case False
      with r b show ?thesis by (simp add: bounds_ok_def)
    qed
  qed
  moreover have "ledger_complete ?db"
    unfolding ledger_complete_def
  proof
    fix ic assume "ic \<in> set (invite_codes ?db)"
    then obtain r where r: "r \<in> set (invite_codes db)" "ic = ?f r" by auto
    have u: "usage_count ?db j = usage_count db j + (if ic_ID ic0 = j then 1 else 0)" for j
      using assms(4) by (simp add: usage_count_def)
    show "int (usage_count ?db (ic_ID ic)) = ic_UsedCount ic"
    proof (cases "ic_ID r = ic_ID ic0")
      case True
      with r l0 show ?thesis by (simp add: u c_red ic_ID_redeemed)
    next
      case False
      with r l show ?thesis by (simp add: u ledger_complete_def)
    qed
  qed
  ultimately show ?thesis by (simp add: consistent_def)
qed

lemma consistent_UseInviteCode: "consistent db \<Longrightarrow> consistent (snd (UseInviteCode e code uid ip ua db))"
  using UseInviteCode_effect [of e code uid ip ua db] by (auto simp: consistent_redeem_step)

lemma consistent_rows_same_counts:
  assumes "consistent db"
    and "\<And>r. ic_ID (f r) = ic_ID r \<and> ic_UsedCount (f r) = ic_UsedCount r \<and>
              ic_MaxUses (f r) = ic_MaxUses r"
  shows "consistent (db\<lparr>invite_codes := map f (invite_codes db)\<rparr>)"
proof -
  have k: "keys_ok db" and b: "bounds_ok db" and l: "ledger_complete db"
    using assms(1) by (simp_all add: consistent_def)
  have "keys_ok (db\<lparr>invite_codes := map f (invite_codes db)\<rparr>)"
    by (rule keys_ok_rows [OF k]) (simp add: assms(2))
  moreover have "bounds_ok (db\<lparr>invite_codes := map f (invite_codes db)\<rparr>)"
    using b by (simp add: bounds_ok_def assms(2))
  moreover have "ledger_complete (db\<lparr>invite_codes := map f (invite_codes db)\<rparr>)"
    using l by (simp add: ledger_complete_def usage_count_def assms(2))
  ultimately show ?thesis by (simp add: consistent_def)
qed

lemma consistent_UpdateInviteCodeStatus:
  assumes "consistent db" shows "consistent (snd (UpdateInviteCodeStatus e i status db))"
proof -
  have "consistent (db\<lparr>invite_codes := map (\<lambda>r. if ic_ID r = ic_ID ic then ic\<lparr>ic_Status := status\<rparr> else r)
                                (invite_codes db)\<rparr>)" if m: "ic \<in> set (invite_codes db)" for ic
  proof -
    have k: "keys_ok db" and b: "bounds_ok db" and l: "ledger_complete db"
      using assms(1) by (simp_all add: consistent_def)
    let ?f = "\<lambda>r. if ic_ID r = ic_ID ic then ic\<lparr>ic_Status := status\<rparr> else r"
    let ?db = "db\<lparr>invite_codes := map ?f (invite_codes db)\<rparr>"
    have "keys_ok ?db"
      by (rule keys_ok_rows [OF k]) simp
    moreover have "bounds_ok ?db"
      unfolding bounds_ok_def
    proof
      fix x assume "x \<in> set (invite_codes ?db)"
      then obtain r where r: "r \<in> set (invite_codes db)" "x = ?f r" by auto
      with b m show "0 \<le> ic_UsedCount x \<and> ic_UsedCount x \<le> ic_MaxUses x"
        by (cases "ic_ID r = ic_ID ic") (simp_all add: bounds_ok_def)
    qed
    moreover have "ledger_complete ?db"
      unfolding ledger_complete_def
    proof
      fix x assume "x \<in> set (invite_codes ?db)"
      then obtain r where r: "r \<in> set (invite_codes db)" "x = ?f r" by auto
      have u: "usage_count ?db j = usage_count db j" for j by (simp add: usage_count_def)
      from r l m show "int (usage_count ?db (ic_ID x)) = ic_UsedCount x"
        by (cases "ic_ID r = ic_ID ic") (simp_all add: u ledger_complete_def)
    qed
    ultimately show ?thesis by (simp add: consistent_def)
  qed
  with UpdateInviteCodeStatus_effect [of e i status db] assms show ?thesis by auto
qed

lemma consistent_DeleteInviteCode:
  assumes "consistent db" shows "consistent (snd (DeleteInviteCode e i db))"
proof -
  have "consistent (db\<lparr>invite_codes := map (\<lambda>r. if ic_ID r = i \<and> \<not> ic_DeletedAt r
                                   then r\<lparr>ic_DeletedAt := True\<rparr> else r) (invite_codes db)\<rparr>)"
    by (rule consistent_rows_same_counts [OF assms]) simp
  with DeleteInviteCode_effect [of e i db] assms show ?thesis by auto
qed

lemma consistent_Handler_CreateInviteCode:
  assumes "consistent db" shows "consistent (snd (Handler_CreateInviteCode e draws user req db))"
proof -
  have "consistent (db\<lparr>invite_codes := invite_codes db @ [ic], invite_codes_seq := invite_codes_seq db + 1\<rparr>)"
    if n: "ic_ID ic = invite_codes_seq db" "ic_UsedCount ic = 0" "1 \<le> ic_MaxUses ic" for ic
  proof -
    have k: "keys_ok db" and b: "bounds_ok db" and l: "ledger_complete db"
      using assms by (simp_all add: consistent_def)
    have z: "usage_count db (invite_codes_seq db) = 0"
      using k by (auto simp: keys_ok_def usage_count_def filter_empty_conv)
    have "keys_ok (db\<lparr>invite_codes := invite_codes db @ [ic],
                      invite_codes_seq := invite_codes_seq db + 1\<rparr>)"
      using k n by (fastforce simp: keys_ok_def)
    moreover have "bounds_ok (db\<lparr>invite_codes := invite_codes db @ [ic],
                      invite_codes_seq := invite_codes_seq db + 1\<rparr>)"
      using b n by (auto simp: bounds_ok_def)
    moreover have "ledger_complete (db\<lparr>invite_codes := invite_codes db @ [ic],
                      invite_codes_seq := invite_codes_seq db + 1\<rparr>)"
      using l n z by (auto simp: ledger_complete_def usage_count_def)
    ultimately show ?thesis by (simp add: consistent_def)
  qed
  with Handler_CreateInviteCode_effect [of e draws user req db] assms show ?thesis by auto
qed

lemma consistent_Register: "consistent db \<Longrightarrow> consistent (snd (Register re req db))"
  by (rule Register_preserves) (simp_all add: consistent_with_user consistent_UseInviteCode)

lemma consistent_apply_op: "consistent db \<Longrightarrow> consistent (apply_op x db)"
  by (cases x)
     (simp_all add: consistent_Handler_CreateInviteCode consistent_UseInviteCode consistent_UpdateInviteCodeStatus
        consistent_DeleteInviteCode consistent_Register)

lemma consistent_run: "consistent db \<Longrightarrow> consistent (run ops db)"
  by (induction ops arbitrary: db) (simp_all add: consistent_apply_op)

lemma run_ex_ops: "run ex_ops empty_db = ex_used"
  by (simp add: ex_ops_def ex_db_created ex_used_def)

lemma ex_use:
  "UseInviteCode no_faults ex_code_string 9 ''10.0.0.1'' ''curl'' ex_db = (Inr ex_used_row, ex_used)"
proof -
  have "UseInviteCode no_faults ex_code_string 9 ''10.0.0.1'' ''curl'' ex_db
          = UseInviteCode_tx no_faults ex_code 9 ''10.0.0.1'' ''curl'' ex_db ex_db"
    by (simp add: UseInviteCode_cases ex_validate)
  also have "\<dots> = (Inr ex_used_row, ex_used)"
    by (simp add: UseInviteCode_tx_cases ex_used_eq ex_used_row_def redeemed_def ex_code_def
        ex_db_def save_row_def InviteCodeStatusUsed_def no_faults_def)
  finally show ?thesis .
qed

text \<open>
  C3. After any sequence of operations from the empty database, every row has
  \<open>0 \<le> UsedCount \<le> MaxUses\<close>. And when a redemption succeeds there, the row it
  returns has status used exactly when its count equals its cap, and that row is the
  one stored under its key.
\<close>

theorem used_count_bounds_and_used_status:
  "(\<forall>ic \<in> set (invite_codes (run ops empty_db)).
       0 \<le> ic_UsedCount ic \<and> ic_UsedCount ic \<le> ic_MaxUses ic)
   \<and> (\<forall>ic db'. UseInviteCode e code userID ip ua (run ops empty_db) = (Inr ic, db') \<longrightarrow>
         (ic_Status ic = InviteCodeStatusUsed \<longleftrightarrow> ic_UsedCount ic = ic_MaxUses ic) \<and>
         ic \<in> set (invite_codes db') \<and>
         (\<forall>r \<in> set (invite_codes db'). ic_ID r = ic_ID ic \<longrightarrow> r = ic))"
proof -
  have "consistent (run ops empty_db)" by (rule consistent_run [OF consistent_empty])
  then have bounds: "\<forall>ic \<in> set (invite_codes (run ops empty_db)).
       0 \<le> ic_UsedCount ic \<and> ic_UsedCount ic \<le> ic_MaxUses ic"
    by (simp add: consistent_def bounds_ok_def)
  have after: "(ic_Status ic = InviteCodeStatusUsed \<longleftrightarrow> ic_UsedCount ic = ic_MaxUses ic) \<and>
         ic \<in> set (invite_codes db') \<and>
         (\<forall>r \<in> set (invite_codes db'). ic_ID r = ic_ID ic \<longrightarrow> r = ic)"
    if u: "UseInviteCode e code userID ip ua (run ops empty_db) = (Inr ic, db')" for ic db'
  proof -
    let ?db = "run ops empty_db"
    from UseInviteCode_Inr [OF u] obtain ic0 where
      v: "ValidateInviteCode e code ?db = Inr ic0" and r: "ic = redeemed ic0" and
      d: "invite_codes db' = save_row ic (invite_codes ?db)"
      by auto
    from ValidateInviteCode_Inr [OF v] have
      m: "ic0 \<in> set (invite_codes ?db)" and c: "ic_UsedCount ic0 < ic_MaxUses ic0"
      and s: "ic_Status ic0 = InviteCodeStatusActive"
      by (simp_all add: live_by_code_mem)
    have st: "ic_Status ic = InviteCodeStatusUsed \<longleftrightarrow> ic_UsedCount ic = ic_MaxUses ic"
      using r c s by (auto simp: redeemed_def InviteCodeStatusActive_def InviteCodeStatusUsed_def)
    have "ic_ID ic = ic_ID ic0" using r by (simp add: ic_ID_redeemed)
    from save_row_present [OF m this] d have
      rows: "invite_codes db' = map (\<lambda>r. if ic_ID r = ic_ID ic0 then ic else r) (invite_codes ?db)"
      by simp
    have "ic \<in> set (invite_codes db')"
      using m by (force simp: rows)
    moreover have "\<forall>r \<in> set (invite_codes db'). ic_ID r = ic_ID ic \<longrightarrow> r = ic"
      using \<open>ic_ID ic = ic_ID ic0\<close> by (auto simp: rows)
    ultimately show ?thesis using st by blast
  qed
  from bounds after show ?thesis by blast
qed

theorem used_count_bounds_and_used_status_witness:
  "ex_used_row \<in> set (invite_codes (run ex_ops empty_db)) \<and>
   0 \<le> ic_UsedCount ex_used_row \<and> ic_UsedCount ex_used_row \<le> ic_MaxUses ex_used_row \<and>
   UseInviteCode no_faults ex_code_string 9 ''10.0.0.1'' ''curl''
      (run [OpCreate no_faults [ex_draw] ex_user \<lparr>req_MaxUses = 1, req_Description = ''solo''\<rparr>] empty_db)
      = (Inr ex_used_row, ex_used) \<and>
   ic_Status ex_used_row = InviteCodeStatusUsed \<and> ic_UsedCount ex_used_row = ic_MaxUses ex_used_row"
proof -
  have m: "ex_used_row \<in> set (invite_codes (run ex_ops empty_db))"
    by (simp add: run_ex_ops ex_used_eq ex_used_row_def)
  have r: "run [OpCreate no_faults [ex_draw] ex_user \<lparr>req_MaxUses = 1, req_Description = ''solo''\<rparr>]
             empty_db = ex_db"
    by (simp add: ex_db_created)
  have u: "UseInviteCode no_faults ex_code_string 9 ''10.0.0.1'' ''curl''
      (run [OpCreate no_faults [ex_draw] ex_user \<lparr>req_MaxUses = 1, req_Description = ''solo''\<rparr>] empty_db)
      = (Inr ex_used_row, ex_used)"
    unfolding r by (rule ex_use)
  have c: "ic_UsedCount ex_used_row = ic_MaxUses ex_used_row"
    by (simp add: ex_used_row_def ex_code_def)
  from used_count_bounds_and_used_status [where ops = ex_ops] m
  have "0 \<le> ic_UsedCount ex_used_row \<and> ic_UsedCount ex_used_row \<le> ic_MaxUses ex_used_row"
    by blast
  moreover
  from used_count_bounds_and_used_status [where e = no_faults and code = ex_code_string
      and userID = 9 and ip = "''10.0.0.1''" and ua = "''curl''"
      and ops = "[OpCreate no_faults [ex_draw] ex_user \<lparr>req_MaxUses = 1, req_Description = ''solo''\<rparr>]"]
    u c
  have "ic_Status ex_used_row = InviteCodeStatusUsed" by blast
  ultimately show ?thesis using m u c by blast
qed

text \<open>
  As long as the operations do not overlap, the ledger keeps step with the counter:
  after any sequence of operations from the empty database, the number of ledger
  entries that refer to a code equals the code's \<open>UsedCount\<close>, for every row.
\<close>

lemma ledger_complete_without_overlap:
  "\<forall>ic \<in> set (invite_codes (run ops empty_db)).
      int (length (filter (\<lambda>u. iu_InviteCodeID u = ic_ID ic)
                          (invite_code_usages (run ops empty_db)))) = ic_UsedCount ic"
proof -
  have "consistent (run ops empty_db)" by (rule consistent_run [OF consistent_empty])
  then show ?thesis by (simp add: consistent_def ledger_complete_def usage_count_def)
qed


section \<open>Two redemptions of a single-use code\<close>

text \<open>
  However the steps of overlapping redemptions are ordered, no counter passes its
  cap: the row that a validated attempt writes back has a count of at most the cap.
\<close>

lemma bounds_ok_save_redeemed:
  assumes "bounds_ok db" and "0 \<le> ic_UsedCount ic" and "ic_UsedCount ic < ic_MaxUses ic"
  shows "bounds_ok (db\<lparr>invite_codes := save_row (redeemed ic) (invite_codes db),
                       invite_code_usages := us, invite_code_usages_seq := n\<rparr>)"
proof -
  have r: "0 \<le> ic_UsedCount (redeemed ic) \<and> ic_UsedCount (redeemed ic) \<le> ic_MaxUses (redeemed ic)"
    using assms(2,3) by (simp add: redeemed_def)
  have "set (save_row (redeemed ic) (invite_codes db)) \<subseteq> insert (redeemed ic) (set (invite_codes db))"
    by (auto simp: save_row_def)
  with assms(1) r show ?thesis
    by (auto simp: bounds_ok_def)
qed

lemma attempt_step_bounds:
  assumes "bounds_ok db" and "phase_ok p" and "attempt_step code uid p db = (p', db')"
  shows "bounds_ok db' \<and> phase_ok p'"
proof (cases p)
  case Pending
  show ?thesis
  proof (cases "ValidateInviteCode no_faults code db")
    case (Inl err)
    with Pending assms show ?thesis by auto
  next
    case (Inr ic)
    from ValidateInviteCode_Inr [OF Inr] assms(1) have "0 \<le> ic_UsedCount ic \<and> ic_UsedCount ic < ic_MaxUses ic"
      by (auto simp: bounds_ok_def dest: live_by_code_mem)
    with Pending Inr assms show ?thesis by auto
  qed
next
  case (Validated ic)
  with assms show ?thesis
    by (auto simp: Begin_def UseInviteCode_tx_cases no_faults_def bounds_ok_save_redeemed)
next
  case (Finished r)
  with assms show ?thesis by auto
qed

lemma run_schedule_bounds:
  assumes "bounds_ok db" and "list_all phase_ok ps" and "run_schedule code sched (ps, db) = (ps', db')"
  shows "bounds_ok db'"
  using assms
proof (induction sched arbitrary: ps db)
  case Nil
  then show ?case by simp
next
  case (Cons i sched)
  show ?case
  proof (cases "i < length ps")
    case False
    with Cons show ?thesis by simp
  next
    case True
    obtain p d where s: "attempt_step code i (ps ! i) db = (p, d)"
      by (cases "attempt_step code i (ps ! i) db")
    from True Cons.prems(2) have "phase_ok (ps ! i)" by (simp add: list_all_length)
    from attempt_step_bounds [OF Cons.prems(1) this s] have b: "bounds_ok d" "phase_ok p" by simp_all
    from b(2) Cons.prems(2) have "list_all phase_ok (ps[i := p])"
      by (auto simp: list_all_iff dest: set_update_subset_insert [THEN subsetD])
    from Cons.IH [OF b(1) this] Cons.prems(3) True s show ?thesis by simp
  qed
qed

text \<open>
  C1. The example code has one use and two attempts redeem it. When they run one
  after the other, the first succeeds and the second is rejected because the maximum
  is reached. When both validations are served before either transaction, both
  attempts succeed, where the claim allows one success and demands one rejection:
  the row ends with a count of one and the ledger with two entries.
\<close>

theorem overlapping_redemptions_oversell:
  "ic_MaxUses ex_code = 1 \<and>
   run_schedule ex_code_string [0, 0, 1, 1] ([Pending, Pending], ex_db)
     = ([Finished (Inr ex_used_row), Finished (Inl ErrMaxUsesReached)],
        ex_db\<lparr>invite_codes := [ex_used_row], invite_code_usages := [ex_usage 1 0],
              invite_code_usages_seq := 2\<rparr>) \<and>
   run_schedule ex_code_string [0, 1, 0, 1] ([Pending, Pending], ex_db)
     = ([Finished (Inr ex_used_row), Finished (Inr ex_used_row)],
        ex_db\<lparr>invite_codes := [ex_used_row], invite_code_usages := [ex_usage 1 0, ex_usage 2 1],
              invite_code_usages_seq := 3\<rparr>)"
  by (simp add: ex_db_def ex_code_def ex_used_row_def ex_usage_def ex_code_string_def
      ValidateInviteCode_def GetInviteCodeByCode_def First_by_code_def CanBeUsed_def IsActive_def
      IsDeleted_def IsExhausted_def no_faults_def Begin_def UseInviteCode_tx_cases redeemed_def
      save_row_def InviteCodeStatusActive_def InviteCodeStatusUsed_def)

text \<open>
  C8. The number of ledger entries of a code does not always equal its \<open>UsedCount\<close>.
  The two overlapping redemptions of the single-use code both complete with success,
  and afterwards the ledger holds two entries for the code while its count is one:
  the second transaction writes the count it computed from its own, stale read. This
  is the defect of C1 seen from the ledger. \<open>CreateUsageRecord\<close>, which no code of
  the repository calls, would break the equality on its own: it inserts a ledger
  entry and leaves the counter alone.
\<close>

theorem overlapping_redemptions_break_ledger:
  "fst (run_schedule ex_code_string [0, 1, 0, 1] ([Pending, Pending], ex_db))
     = [Finished (Inr ex_used_row), Finished (Inr ex_used_row)] \<and>
   invite_codes (snd (run_schedule ex_code_string [0, 1, 0, 1] ([Pending, Pending], ex_db)))
     = [ex_used_row] \<and>
   ic_UsedCount ex_used_row = 1 \<and>
   length (filter (\<lambda>u. iu_InviteCodeID u = ic_ID ex_used_row)
             (invite_code_usages
                (snd (run_schedule ex_code_string [0, 1, 0, 1] ([Pending, Pending], ex_db)))))
     = 2 \<and>
   invite_codes (snd (CreateUsageRecord no_faults 1 9 ''10.0.0.1'' ''curl'' ex_db)) = [ex_code] \<and>
   ic_UsedCount ex_code = 0 \<and>
   length (filter (\<lambda>u. iu_InviteCodeID u = ic_ID ex_code)
             (invite_code_usages (snd (CreateUsageRecord no_faults 1 9 ''10.0.0.1'' ''curl'' ex_db))))
     = 1"
  by (simp add: ex_db_def ex_code_def ex_used_row_def ex_code_string_def
      ValidateInviteCode_def GetInviteCodeByCode_def First_by_code_def CanBeUsed_def IsActive_def
      IsDeleted_def IsExhausted_def no_faults_def Begin_def UseInviteCode_tx_cases redeemed_def
      save_row_def InviteCodeStatusActive_def InviteCodeStatusUsed_def CreateUsageRecord_def
      Create_usage_def Let_def)

end
